theory Spec2Isabelle
  imports Main "HOL-Library.Sublist" "HOL-Library.AList" "HOL-Library.Multiset"
begin

section \<open>JavaScript strings and objects\<close>

text \<open>
  A JavaScript string is a sequence of UTF-16 code units; \<open>length\<close>, \<open>substring\<close>,
  \<open>includes\<close>, \<open>replaceAll\<close> and the regular expressions of the guardrail (none has the
  \<open>u\<close> flag) all work on code units. A code unit is modelled by its number, an integer.
\<close>

type_synonym jschar = int
type_synonym jsstring = "jschar list"

definition js :: "string \<Rightarrow> jsstring" where
  "js s = map of_char s"

text \<open>\<open>String.prototype.substring\<close>: both arguments are clamped to \<open>[0, length]\<close> and
  swapped when the first is the larger one; with one argument the end is the length.\<close>

definition js_substring :: "jsstring \<Rightarrow> int \<Rightarrow> int \<Rightarrow> jsstring" where
  "js_substring s a b =
     (let len = int (length s);
          fa = min (max a 0) len;
          fb = min (max b 0) len;
          from = min fa fb;
          to = max fa fb
      in take (nat (to - from)) (drop (nat from) s))"

definition js_substring_from :: "jsstring \<Rightarrow> int \<Rightarrow> jsstring" where
  "js_substring_from s a = js_substring s a (int (length s))"

text \<open>\<open>String.prototype.includes\<close> with a string argument.\<close>

fun js_includes :: "jsstring \<Rightarrow> jsstring \<Rightarrow> bool" where
  "js_includes [] k = (k = [])"
| "js_includes (c # cs) k = (prefix k (c # cs) \<or> js_includes cs k)"

text \<open>
  \<open>GetSubstitution\<close> for a string search value (no captures, no named groups): in the
  replacement template \<open>$$\<close> stands for \<open>$\<close>, \<open>$&\<close> for the matched text, \<open>$`\<close> for the
  text before the match and \<open>$'\<close> for the text after it; every other code unit is copied.
  The code units are 36 (\<open>$\<close>), 38 (\<open>&\<close>), 96 (\<open>`\<close>) and 39 (\<open>'\<close>).
\<close>

fun GetSubstitution :: "jsstring \<Rightarrow> jsstring \<Rightarrow> jsstring \<Rightarrow> jsstring \<Rightarrow> jsstring" where
  "GetSubstitution matched preceding following [] = []"
| "GetSubstitution matched preceding following [c] = [c]"
| "GetSubstitution matched preceding following (c # d # r) =
     (if c = 36 \<and> d = 36 then 36 # GetSubstitution matched preceding following r
      else if c = 36 \<and> d = 96 then preceding @ GetSubstitution matched preceding following r
      else if c = 36 \<and> d = 38 then matched @ GetSubstitution matched preceding following r
      else if c = 36 \<and> d = 39 then following @ GetSubstitution matched preceding following r
      else c # GetSubstitution matched preceding following (d # r))"

text \<open>
  \<open>String.prototype.replaceAll\<close> with a string search value and a string replacement:
  the occurrences are found from left to right, the search resuming after each one (one
  code unit further when the search string is empty, which occurs at every position, the
  end included). \<open>preceding\<close> is the text already passed, \<open>rest\<close> the text still to scan.
\<close>

function replaceAll_scan :: "jsstring \<Rightarrow> jsstring \<Rightarrow> jsstring \<Rightarrow> jsstring \<Rightarrow> jsstring" where
  "replaceAll_scan search template preceding rest =
     (if prefix search rest then
        GetSubstitution search preceding (drop (length search) rest) template @
          (if search = [] then
             (case rest of [] \<Rightarrow> []
              | c # cs \<Rightarrow> c # replaceAll_scan search template (preceding @ [c]) cs)
           else replaceAll_scan search template (preceding @ search) (drop (length search) rest))
      else
        (case rest of [] \<Rightarrow> []
         | c # cs \<Rightarrow> c # replaceAll_scan search template (preceding @ [c]) cs))"
  by pat_completeness auto
termination
  by (relation "measure (\<lambda>(search, template, preceding, rest). length rest)")
     (auto simp: prefix_def)

declare replaceAll_scan.simps [simp del]

definition js_replaceAll :: "jsstring \<Rightarrow> jsstring \<Rightarrow> jsstring \<Rightarrow> jsstring" where
  "js_replaceAll s search template = replaceAll_scan search template [] s"

text \<open>
  An object used as a dictionary (\<open>Record<string, string>\<close>) is the list of its own
  properties in creation order, each key once. Defining a property overwrites the value in
  place or appends the key (\<open>AList.update\<close>). Assigning with \<open>obj[k] = v\<close> on an object
  literal does the same, except for the key \<open>__proto__\<close>: the inherited setter ignores a
  string value and no property is created.
\<close>

type_synonym ReplacementMapping = "(jsstring \<times> jsstring) list"


definition obj_assign :: "ReplacementMapping \<Rightarrow> jsstring \<Rightarrow> jsstring \<Rightarrow> ReplacementMapping" where
  "obj_assign m k v = (if k = js ''__proto__'' then m else AList.update k v m)"

text \<open>
  The own keys of an object are enumerated with the array indices first, in ascending
  numeric order, then the other string keys in creation order. An array index is the
  canonical decimal numeral of a number below \<open>2^32 - 1 = 4294967295\<close>.
\<close>

definition is_digit :: "jschar \<Rightarrow> bool" where
  "is_digit c = (48 \<le> c \<and> c \<le> 57)"

definition decimal_value :: "jsstring \<Rightarrow> int" where
  "decimal_value s = foldl (\<lambda>a c. 10 * a + (c - 48)) 0 s"

definition array_index :: "jsstring \<Rightarrow> int option" where
  "array_index k =
     (if k \<noteq> [] \<and> list_all is_digit k \<and> (k = [48] \<or> hd k \<noteq> 48)
      then (if decimal_value k < 4294967295 then Some (decimal_value k) else None)
      else None)"

definition Object_entries :: "(jsstring \<times> 'v) list \<Rightarrow> (jsstring \<times> 'v) list" where
  "Object_entries m =
     sort_key (\<lambda>(k, v). the (array_index k)) (filter (\<lambda>(k, v). array_index k \<noteq> None) m)
     @ filter (\<lambda>(k, v). array_index k = None) m"

definition Object_keys :: "(jsstring \<times> 'v) list \<Rightarrow> jsstring list" where
  "Object_keys m = map fst (Object_entries m)"



section \<open>The data model\<close>

datatype SensitiveInfoType =
  email | phone | credit_card | ssn | name | address | api_key | password | username
  | ip_address | date_of_birth | bank_reference | medical_reference

text \<open>The fields \<open>id\<close> and \<open>type\<close> of the source are \<open>item_id\<close> and \<open>item_type\<close> here.\<close>

record SensitiveItem =
  item_id :: jsstring
  item_type :: SensitiveInfoType
  label :: jsstring
  original :: jsstring
  replacement :: jsstring
  startIndex :: int
  endIndex :: int
  ignored :: bool

record GuardrailResult =
  hasSensitiveInfo :: bool
  items :: "SensitiveItem list"
  anonymizedText :: jsstring

section \<open>Redaction and restoration\<close>

text \<open>\<open>applyReplacements\<close>: the active items, sorted by descending start (the sort is
  stable), are spliced one after the other into the running result.\<close>

definition splice_item :: "jsstring \<Rightarrow> SensitiveItem \<Rightarrow> jsstring" where
  "splice_item result item =
     js_substring result 0 (startIndex item) @ replacement item
       @ js_substring_from result (endIndex item)"

definition applyReplacements :: "jsstring \<Rightarrow> SensitiveItem list \<Rightarrow> jsstring" where
  "applyReplacements text its =
     foldl splice_item text
       (sort_key (\<lambda>item. - startIndex item) (filter (\<lambda>item. \<not> ignored item) its))"

definition buildReplacementMapping :: "SensitiveItem list \<Rightarrow> ReplacementMapping" where
  "buildReplacementMapping its =
     foldl (\<lambda>mapping item.
              if \<not> ignored item then obj_assign mapping (replacement item) (original item)
              else mapping) [] its"

definition restoreOriginals :: "jsstring \<Rightarrow> ReplacementMapping \<Rightarrow> jsstring" where
  "restoreOriginals text mapping =
     foldl (\<lambda>result (placeholder, orig). js_replaceAll result placeholder orig)
       text (Object_entries mapping)"

definition hasMappablePlaceholders :: "jsstring \<Rightarrow> ReplacementMapping \<Rightarrow> bool" where
  "hasMappablePlaceholders text mapping =
     (if text = [] \<or> length (Object_keys mapping) = 0 then False
      else list_ex (\<lambda>ph. js_includes text ph) (Object_keys mapping))"

section \<open>The session's mapping\<close>




section \<open>Regular expressions\<close>

text \<open>
  The patterns of the registry are regular expressions without the \<open>u\<close> flag, without
  capture groups and without lazy quantifiers. The matcher follows the backtracking
  semantics of the language standard, written as a list of successes: from a position it
  gives every position at which a match of the pattern can end, in the order in which
  backtracking tries them, so the head of the list is where the match ends. A position in
  the text is a zipper: the text before it, reversed, and the text from it on.
\<close>

type_synonym zipper = "jsstring \<times> jsstring"
type_synonym matcher = "zipper \<Rightarrow> zipper list"

datatype regex =
    Cls "(jschar \<times> jschar) list"
  | NCls "(jschar \<times> jschar) list"
  | Empty
  | Seq regex regex
  | Alt regex regex
  | Rep nat "nat option" regex
  | WordB
  | Ahead regex
  | Behind regex

text \<open>A character class is a list of inclusive ranges of code units; \<open>NCls\<close> is the
  complement (\<open>\S\<close>).\<close>

definition in_ranges :: "(jschar \<times> jschar) list \<Rightarrow> jschar \<Rightarrow> bool" where
  "in_ranges rs c = list_ex (\<lambda>(lo, hi). lo \<le> c \<and> c \<le> hi) rs"

definition word_ranges :: "(jschar \<times> jschar) list" where
  "word_ranges = [(97, 122), (65, 90), (48, 57), (95, 95)]"

text \<open>\<open>\b\<close>: exactly one of the code units before and after the position is a word
  character; outside the text there is none.\<close>

definition at_word_boundary :: "zipper \<Rightarrow> bool" where
  "at_word_boundary z =
     ((case fst z of [] \<Rightarrow> False | c # cs \<Rightarrow> in_ranges word_ranges c)
      \<noteq> (case snd z of [] \<Rightarrow> False | c # cs \<Rightarrow> in_ranges word_ranges c))"

text \<open>
  \<open>RepeatMatcher\<close> for a greedy quantifier \<open>{min,max}\<close>: with \<open>max = 0\<close> the match goes
  on from the current position; otherwise the body is tried first and repeated from each
  of its ends, an iteration that consumed nothing being rejected once \<open>min\<close> is reached;
  when \<open>min\<close> is reached, going on from the current position is the last alternative.
\<close>

primrec RepeatMatcher :: "matcher \<Rightarrow> nat \<Rightarrow> nat \<Rightarrow> matcher" where
  "RepeatMatcher m mn 0 z = [z]"
| "RepeatMatcher m mn (Suc mx) z =
     (if mn \<noteq> 0 then concat (map (RepeatMatcher m (mn - 1) mx) (m z))
      else concat (map (RepeatMatcher m 0 mx)
                     (filter (\<lambda>y. length (snd y) \<noteq> length (snd z)) (m z)))
           @ [z])"

text \<open>
  A lookbehind \<open>(?<=r)\<close> holds at a position when \<open>r\<close> matches some stretch of text that
  ends there. (The standard runs \<open>r\<close> backwards from the position; without captures that
  accepts the same stretches.) The start moves to the left one code unit at a time; \<open>n\<close> is
  the length of the text after the position of the lookbehind.
\<close>

fun look_behind :: "matcher \<Rightarrow> jsstring \<Rightarrow> jsstring \<Rightarrow> nat \<Rightarrow> bool" where
  "look_behind m [] suf n = list_ex (\<lambda>z. length (snd z) = n) (m ([], suf))"
| "look_behind m (c # rp) suf n =
     (list_ex (\<lambda>z. length (snd z) = n) (m (c # rp, suf)) \<or> look_behind m rp (c # suf) n)"

text \<open>
  An unbounded quantifier (\<open>*\<close>, \<open>+\<close>, \<open>{n,}\<close>) runs \<open>RepeatMatcher\<close> with the bound
  \<open>min + (length of the text left)\<close>: after \<open>min\<close> iterations every further iteration
  consumes at least one code unit, so the bound is never reached before the text ends.
\<close>

primrec rmatch :: "regex \<Rightarrow> matcher" where
  "rmatch (Cls rs) z =
     (case snd z of [] \<Rightarrow> []
      | c # cs \<Rightarrow> if in_ranges rs c then [(c # fst z, cs)] else [])"
| "rmatch (NCls rs) z =
     (case snd z of [] \<Rightarrow> []
      | c # cs \<Rightarrow> if \<not> in_ranges rs c then [(c # fst z, cs)] else [])"
| "rmatch Empty z = [z]"
| "rmatch (Seq a b) z = concat (map (rmatch b) (rmatch a z))"
| "rmatch (Alt a b) z = rmatch a z @ rmatch b z"
| "rmatch (Rep mn mx r) z =
     RepeatMatcher (rmatch r) mn (case mx of None \<Rightarrow> mn + length (snd z) | Some n \<Rightarrow> n) z"
| "rmatch WordB z = (if at_word_boundary z then [z] else [])"
| "rmatch (Ahead r) z = (if rmatch r z \<noteq> [] then [z] else [])"
| "rmatch (Behind r) z =
     (if look_behind (rmatch r) (fst z) (snd z) (length (snd z)) then [z] else [])"

text \<open>
  \<open>RegExp.prototype.exec\<close> on a global regular expression, from \<open>lastIndex\<close>: the first
  position from there (the end of the text included) where the pattern matches. The
  result is \<open>match.index\<close>, \<open>match[0]\<close> and the position after the match, which becomes
  \<open>lastIndex\<close>.
\<close>

fun regex_exec :: "regex \<Rightarrow> jsstring \<Rightarrow> jsstring \<Rightarrow> nat \<Rightarrow> (nat \<times> jsstring \<times> zipper) option" where
  "regex_exec r rp [] i =
     (case rmatch r (rp, []) of [] \<Rightarrow> None | z # zs \<Rightarrow> Some (i, [], z))"
| "regex_exec r rp (c # cs) i =
     (case rmatch r (rp, c # cs) of
        z # zs \<Rightarrow> Some (i, take (length (c # cs) - length (snd z)) (c # cs), z)
      | [] \<Rightarrow> regex_exec r (c # rp) cs (Suc i))"

text \<open>The least number of code units a match of the pattern has.\<close>

primrec minlen :: "regex \<Rightarrow> nat" where
  "minlen (Cls rs) = 1"
| "minlen (NCls rs) = 1"
| "minlen Empty = 0"
| "minlen (Seq a b) = minlen a + minlen b"
| "minlen (Alt a b) = min (minlen a) (minlen b)"
| "minlen (Rep mn mx r) = (case mx of None \<Rightarrow> mn | Some n \<Rightarrow> min mn n) * minlen r"
| "minlen WordB = 0"
| "minlen (Ahead r) = 0"
| "minlen (Behind r) = 0"

subsection \<open>Writing patterns\<close>

definition chars :: "string \<Rightarrow> (jschar \<times> jschar) list" where
  "chars s = map (\<lambda>c. (of_char c, of_char c)) s"

definition rng :: "char \<Rightarrow> char \<Rightarrow> (jschar \<times> jschar) list" where
  "rng a b = [(of_char a, of_char b)]"

fun seqs :: "regex list \<Rightarrow> regex" where
  "seqs [] = Empty"
| "seqs [r] = r"
| "seqs (r # rs) = Seq r (seqs rs)"

fun alts :: "regex list \<Rightarrow> regex" where
  "alts [] = Empty"
| "alts [r] = r"
| "alts (r # rs) = Alt r (alts rs)"

definition lit :: "string \<Rightarrow> regex" where
  "lit s = seqs (map (\<lambda>c. Cls [(of_char c, of_char c)]) s)"

text \<open>
  A literal under the \<open>i\<close> flag. Without the \<open>u\<close> flag two code units match when their
  upper-case forms agree, and a code unit from 128 on never folds to one below 128; so an
  ASCII letter matches its two cases and nothing else, and every other ASCII character
  matches itself.
\<close>

definition both_cases :: "jschar \<Rightarrow> (jschar \<times> jschar) list" where
  "both_cases c =
     (if 97 \<le> c \<and> c \<le> 122 then [(c, c), (c - 32, c - 32)]
      else if 65 \<le> c \<and> c \<le> 90 then [(c + 32, c + 32), (c, c)]
      else [(c, c)])"

definition liti :: "string \<Rightarrow> regex" where
  "liti s = seqs (map (\<lambda>c. Cls (both_cases (of_char c))) s)"

definition opt :: "regex \<Rightarrow> regex" where "opt r = Rep 0 (Some 1) r"
definition star :: "regex \<Rightarrow> regex" where "star r = Rep 0 None r"
definition plus1 :: "regex \<Rightarrow> regex" where "plus1 r = Rep 1 None r"
definition times :: "nat \<Rightarrow> regex \<Rightarrow> regex" where "times n r = Rep n (Some n) r"
definition between :: "nat \<Rightarrow> nat \<Rightarrow> regex \<Rightarrow> regex" where "between a b r = Rep a (Some b) r"
definition at_least :: "nat \<Rightarrow> regex \<Rightarrow> regex" where "at_least n r = Rep n None r"

text \<open>\<open>\d\<close>, \<open>\s\<close> (white space and line terminators), \<open>\w\<close> and the letter classes
  the patterns use. The letters beyond ASCII are given by their code units: small a, o and
  u with diaeresis are 228, 246 and 252, sharp s is 223, capital A, O and U with diaeresis
  are 196, 214 and 220; the range from capital A with grave to small y with diaeresis is
  192 to 255, its lower-case part starts at 224.\<close>

definition digit_ranges :: "(jschar \<times> jschar) list" where
  "digit_ranges = [(48, 57)]"

definition space_ranges :: "(jschar \<times> jschar) list" where
  "space_ranges =
     [(9, 13), (32, 32), (160, 160), (5760, 5760), (8192, 8202), (8232, 8233),
      (8239, 8239), (8287, 8287), (12288, 12288), (65279, 65279)]"

definition alpha_ranges :: "(jschar \<times> jschar) list" where
  "alpha_ranges = [(97, 122), (65, 90)]"

definition alnum_ranges :: "(jschar \<times> jschar) list" where
  "alnum_ranges = [(97, 122), (65, 90), (48, 57)]"

definition umlaut_ranges :: "(jschar \<times> jschar) list" where
  "umlaut_ranges = [(228, 228), (246, 246), (252, 252), (223, 223), (196, 196), (214, 214), (220, 220)]"

definition D :: regex where "D = Cls digit_ranges"
definition S :: regex where "S = Cls space_ranges"

section \<open>The pattern registry\<close>

text \<open>The fields \<open>type\<close>, \<open>label\<close> and \<open>prefix\<close> of a detection pattern are \<open>p_type\<close>,
  \<open>p_label\<close> and \<open>p_prefix\<close> here.\<close>

record DetectionPattern =
  p_type :: SensitiveInfoType
  p_label :: jsstring
  pattern :: regex
  p_prefix :: jsstring

definition sep_ranges :: "(jschar \<times> jschar) list" where
  "sep_ranges = space_ranges @ chars ''.-''"

definition letter_ranges :: "(jschar \<times> jschar) list" where
  "letter_ranges = alpha_ranges @ umlaut_ranges"

definition user_ranges :: "(jschar \<times> jschar) list" where
  "user_ranges = alnum_ranges @ chars ''_.-''"

definition cap_ranges :: "(jschar \<times> jschar) list" where
  "cap_ranges = [(65, 90), (192, 255)]"

definition low_ranges :: "(jschar \<times> jschar) list" where
  "low_ranges = [(97, 122), (224, 255)]"

definition month_names :: "string list" where
  "month_names = [''January'', ''February'', ''March'', ''April'', ''May'', ''June'', ''July'',
     ''August'', ''September'', ''October'', ''November'', ''December'']"

definition email_re :: regex where
  "email_re = seqs [plus1 (Cls (alnum_ranges @ chars ''._%+-'')), lit ''@'',
     plus1 (Cls (alnum_ranges @ chars ''.-'')), lit ''.'', at_least 2 (Cls alpha_ranges)]"

definition credit_card_re :: regex where
  "credit_card_re = seqs [WordB,
     times 3 (Seq (times 4 D) (opt (Cls (chars ''-'' @ space_ranges)))), times 4 D, WordB]"

definition ssn_re :: regex where
  "ssn_re = seqs [WordB, times 3 D, lit ''-'', times 2 D, lit ''-'', times 4 D, WordB]"

definition api_key_re :: regex where
  "api_key_re = seqs [WordB,
     alts [liti ''sk'', liti ''api'', liti ''key'', liti ''token'', liti ''secret''],
     Cls (chars ''-_''), at_least 16 (Cls alnum_ranges), WordB]"

definition password_re :: regex where
  "password_re = seqs [
     alts [liti ''password'', liti ''passwd'', liti ''pwd'', liti ''secret'', liti ''credential''],
     star S, Cls (chars '':=''), star S, plus1 (NCls space_ranges)]"

definition phone_re :: regex where
  "phone_re = Alt
     (seqs [lit ''+'', between 1 3 D, opt (Cls sep_ranges),
            between 8 14 (Seq D (opt (Cls sep_ranges))), D, WordB])
     (seqs [opt (seqs [opt (lit ''+''), lit ''1'', opt (Cls (chars ''-.'' @ space_ranges))]),
            opt (lit ''(''), times 3 D, opt (lit '')''), opt (Cls (chars ''-.'' @ space_ranges)),
            times 3 D, opt (Cls (chars ''-.'' @ space_ranges)), times 4 D, WordB])"

definition address_eu_re :: regex where
  "address_eu_re = seqs [WordB, Cls letter_ranges, star (Cls (letter_ranges @ word_ranges)),
     alts [liti ''strasse'', seqs [liti ''stra'', Cls [(223, 223)], liti ''e''], liti ''platz'',
           liti ''weg'', liti ''gasse'', liti ''street'', liti ''road'', liti ''avenue''],
     plus1 S, between 1 5 D, lit '','', star S, between 4 6 D, plus1 S,
     Cls letter_ranges, star (Cls (letter_ranges @ space_ranges)),
     opt (seqs [lit '','', star S, plus1 (Cls (letter_ranges @ space_ranges))])]"

definition address_us_re :: regex where
  "address_us_re = seqs [WordB, between 1 5 D, plus1 S, Cls [(65, 90)],
     star (Cls (alpha_ranges @ umlaut_ranges)),
     star (Seq (plus1 S) (plus1 (Cls letter_ranges))), plus1 S,
     alts [Seq (lit ''St'') (opt (lit ''reet'')), Seq (lit ''Ave'') (opt (lit ''nue'')),
           lit ''Blvd'', lit ''Boulevard'', Seq (lit ''Dr'') (opt (lit ''ive'')), lit ''Rd'',
           lit ''Road'', lit ''Ln'', lit ''Lane'', lit ''Way'', lit ''Ct'', lit ''Court'',
           Seq (lit ''Pl'') (opt (lit ''ace'')), Seq (lit ''Cir'') (opt (lit ''cle''))],
     opt (lit ''.''),
     opt (seqs [star S, opt (lit '',''), star S, Cls [(65, 90)],
                star (Cls (alpha_ranges @ space_ranges)), opt (lit '',''), star S,
                times 2 (Cls [(65, 90)]), star S, times 5 D,
                opt (Seq (lit ''-'') (times 4 D))])]"

definition address_num_re :: regex where
  "address_num_re = seqs [WordB, between 1 5 D, plus1 S, Cls letter_ranges,
     star (Cls (letter_ranges @ space_ranges)), lit '','', star S, between 4 6 D, plus1 S,
     Cls letter_ranges, star (Cls (letter_ranges @ space_ranges)),
     opt (seqs [lit '','', star S, plus1 (Cls (letter_ranges @ space_ranges))])]"

definition name_title_re :: regex where
  "name_title_re = seqs [WordB,
     alts [lit ''Mr'', lit ''Mrs'', lit ''Ms'', lit ''Miss'', lit ''Dr'', lit ''Prof''],
     opt (lit ''.''), plus1 S, Cls cap_ranges, plus1 (Cls low_ranges),
     plus1 (seqs [plus1 S, Cls cap_ranges, plus1 (Cls low_ranges)]), WordB]"

definition name_context_re :: regex where
  "name_context_re = seqs [WordB, Cls cap_ranges, plus1 (Cls low_ranges),
     plus1 (seqs [plus1 S, Cls cap_ranges, plus1 (Cls low_ranges)]), WordB,
     Ahead (seqs [star S, opt (Cls (chars '',.'')), star S,
       alts [lit ''born'', lit ''lives'', lit ''works'', lit ''can be reached'', lit ''logs in'',
             lit ''was'', lit ''is'', lit ''has'', lit ''her'', lit ''his''],
       WordB])]"

definition username_after_re :: regex where
  "username_after_re = seqs [Behind (Seq (liti ''username'') (plus1 S)),
     star (Cls alnum_ranges), Cls (digit_ranges @ chars ''_.-''),
     between 1 30 (Cls user_ranges), WordB]"

definition username_before_re :: regex where
  "username_before_re = seqs [WordB, star (Cls alnum_ranges), Cls (digit_ranges @ chars ''_.-''),
     between 1 30 (Cls user_ranges), WordB,
     Ahead (seqs [plus1 S,
       alts [liti ''from'', liti ''to'', lit ''@'', liti ''logs'', liti ''using''], S])]"

definition username_using_re :: regex where
  "username_using_re = seqs [
     Behind (seqs [liti ''using'', plus1 S, liti ''the'', plus1 S, liti ''username'', plus1 S]),
     star (Cls alnum_ranges), Cls (digit_ranges @ chars ''_.-''),
     between 1 29 (Cls user_ranges), WordB]"

definition octet_re :: regex where
  "octet_re = alts [Seq (lit ''25'') (Cls [(48, 53)]), seqs [lit ''2'', Cls [(48, 52)], D],
     seqs [opt (lit ''1''), D, opt D]]"

definition ip_address_re :: regex where
  "ip_address_re = seqs [WordB, times 3 (Seq octet_re (lit ''.'')), octet_re, WordB]"

definition dob_day_first_re :: regex where
  "dob_day_first_re = seqs [WordB, opt (seqs [liti ''born'', plus1 S, liti ''on'', plus1 S]),
     between 1 2 D, plus1 S, alts (map liti month_names), plus1 S, times 4 D, WordB]"

definition dob_month_first_re :: regex where
  "dob_month_first_re = seqs [WordB, alts (map lit month_names), plus1 S, between 1 2 D,
     opt (lit '',''), plus1 S, times 4 D, WordB]"

definition dob_iso_re :: regex where
  "dob_iso_re = seqs [WordB, times 4 D, lit ''-'', times 2 D, lit ''-'', times 2 D, WordB]"

definition dob_numeric_re :: regex where
  "dob_numeric_re = seqs [WordB, between 1 2 D, Cls (chars ''./''), between 1 2 D,
     Cls (chars ''./''), times 4 D, WordB]"

definition bank_re :: regex where
  "bank_re = seqs [WordB,
     alts [seqs [liti ''bank'', plus1 S, liti ''account''],
           seqs [liti ''account'', plus1 S, liti ''at'', plus1 S, opt (Seq (liti ''a'') (plus1 S)),
                 alts [liti ''Swiss'', liti ''local'', liti ''their''], plus1 S, liti ''bank'']],
     WordB]"

definition medical_re :: regex where
  "medical_re = seqs [WordB,
     alts [seqs [liti ''health'', plus1 S, liti ''insurance'', plus1 S, liti ''record'',
                 opt (liti ''s'')],
           seqs [liti ''medical'', plus1 S,
                 alts [Seq (liti ''visit'') (opt (liti ''s'')),
                       Seq (liti ''record'') (opt (liti ''s'')), liti ''history'']],
           seqs [liti ''patient'', plus1 S, liti ''information'']],
     WordB]"

definition mk_pattern :: "SensitiveInfoType \<Rightarrow> string \<Rightarrow> regex \<Rightarrow> string \<Rightarrow> DetectionPattern" where
  "mk_pattern t l r p = \<lparr>p_type = t, p_label = js l, pattern = r, p_prefix = js p\<rparr>"

definition DETECTION_PATTERNS :: "DetectionPattern list" where
  "DETECTION_PATTERNS =
    [mk_pattern email ''Email Address'' email_re ''EMAIL'',
     mk_pattern credit_card ''Credit Card Number'' credit_card_re ''CREDIT_CARD'',
     mk_pattern ssn ''Social Security Number'' ssn_re ''SSN'',
     mk_pattern api_key ''API Key'' api_key_re ''API_KEY'',
     mk_pattern password ''Password / Credential'' password_re ''PASSWORD'',
     mk_pattern phone ''Phone Number'' phone_re ''PHONE'',
     mk_pattern address ''Physical Address'' address_eu_re ''ADDRESS'',
     mk_pattern address ''Physical Address'' address_us_re ''ADDRESS'',
     mk_pattern address ''Physical Address'' address_num_re ''ADDRESS'',
     mk_pattern name ''Personal Name'' name_title_re ''NAME'',
     mk_pattern name ''Personal Name'' name_context_re ''NAME'',
     mk_pattern username ''Username'' username_after_re ''USERNAME'',
     mk_pattern username ''Username'' username_before_re ''USERNAME'',
     mk_pattern username ''Username'' username_using_re ''USERNAME'',
     mk_pattern ip_address ''IP Address'' ip_address_re ''IP_ADDRESS'',
     mk_pattern date_of_birth ''Date of Birth'' dob_day_first_re ''DOB'',
     mk_pattern date_of_birth ''Date of Birth'' dob_month_first_re ''DOB'',
     mk_pattern date_of_birth ''Date of Birth'' dob_iso_re ''DOB'',
     mk_pattern date_of_birth ''Date of Birth'' dob_numeric_re ''DOB'',
     mk_pattern bank_reference ''Bank / Account Reference'' bank_re ''BANK_REF'',
     mk_pattern medical_reference ''Medical / Health Reference'' medical_re ''MEDICAL_REF'']"

section \<open>Detection\<close>

definition rangesOverlap :: "'a::linorder \<times> 'a \<Rightarrow> 'a \<times> 'a \<Rightarrow> bool" where
  "rangesOverlap a b = (fst a < snd b \<and> fst b < snd a)"

definition USERNAME_BLOCKLIST :: "jsstring list" where
  "USERNAME_BLOCKLIST = map js
    [''and'', ''the'', ''her'', ''his'', ''from'', ''to'', ''for'', ''are'', ''can'', ''has'', ''had'',
     ''not'', ''you'', ''your'', ''daily'', ''weekly'', ''monthly'', ''yearly'', ''only'', ''just'',
     ''with'', ''using'', ''logs'', ''log'', ''into'', ''out'', ''all'', ''any'', ''new'', ''old'',
     ''own'', ''see'', ''way'', ''how'', ''who'', ''what'', ''when'', ''where'', ''may'', ''will'',
     ''would'', ''could'', ''should'', ''about'', ''after'', ''before'', ''between'', ''under'']"

text \<open>
  \<open>toLowerCase\<close>, as far as membership in the blocklist of ASCII words can tell: the
  capital ASCII letters and the Kelvin sign (8490) become small ASCII letters; every
  other code unit lower-cases to code units outside ASCII and is left as it is.
\<close>

definition js_toLowerCase :: "jsstring \<Rightarrow> jsstring" where
  "js_toLowerCase s =
     map (\<lambda>c. if 65 \<le> c \<and> c \<le> 90 then c + 32 else if c = 8490 then 107 else c) s"

definition looksLikeUsername :: "jsstring \<Rightarrow> bool" where
  "looksLikeUsername token = (if js_toLowerCase token \<in> set USERNAME_BLOCKLIST then False else True)"

text \<open>A number that is a natural number below \<open>10^21\<close> is written in a template literal
  as its decimal numeral.\<close>

fun nat_to_string :: "nat \<Rightarrow> jsstring" where
  "nat_to_string n =
     (if n < 10 then [48 + int n] else nat_to_string (n div 10) @ [48 + int (n mod 10)])"

declare nat_to_string.simps [simp del]

definition type_name :: "SensitiveInfoType \<Rightarrow> jsstring" where
  "type_name t = js (case t of
       email \<Rightarrow> ''email'' | phone \<Rightarrow> ''phone'' | credit_card \<Rightarrow> ''credit_card'' | ssn \<Rightarrow> ''ssn''
     | name \<Rightarrow> ''name'' | address \<Rightarrow> ''address'' | api_key \<Rightarrow> ''api_key''
     | password \<Rightarrow> ''password'' | username \<Rightarrow> ''username'' | ip_address \<Rightarrow> ''ip_address''
     | date_of_birth \<Rightarrow> ''date_of_birth'' | bank_reference \<Rightarrow> ''bank_reference''
     | medical_reference \<Rightarrow> ''medical_reference'')"

text \<open>The state of one scan: the counters per prefix, the items accepted so far and
  their ranges (the local variables \<open>counters\<close>, \<open>items\<close> and \<open>usedRanges\<close>).\<close>

record scan_state =
  counters :: "(jsstring \<times> nat) list"
  st_items :: "SensitiveItem list"
  usedRanges :: "(nat \<times> nat) list"

definition placeholder_text :: "jsstring \<Rightarrow> nat \<Rightarrow> jsstring" where
  "placeholder_text pfx n = js ''['' @ pfx @ js ''_'' @ nat_to_string n @ js '']''"

definition getPlaceholder :: "jsstring \<Rightarrow> (jsstring \<times> nat) list \<Rightarrow> jsstring \<times> (jsstring \<times> nat) list" where
  "getPlaceholder pfx cs =
     (let n = (case map_of cs pfx of None \<Rightarrow> 0 | Some c \<Rightarrow> c) + 1
      in (placeholder_text pfx n, AList.update pfx n cs))"

definition strip_non_digits :: "jsstring \<Rightarrow> jsstring" where
  "strip_non_digits s = filter is_digit s"

text \<open>The identifier of an item, \<open>`${pattern.type}-${start}-${end}`\<close>, and the item that
  the loop body pushes.\<close>

definition item_id_of :: "SensitiveInfoType \<Rightarrow> nat \<Rightarrow> nat \<Rightarrow> jsstring" where
  "item_id_of t start stop =
     type_name t @ js ''-'' @ nat_to_string start @ js ''-'' @ nat_to_string stop"

definition make_item :: "DetectionPattern \<Rightarrow> nat \<Rightarrow> nat \<Rightarrow> jsstring \<Rightarrow> jsstring \<Rightarrow> SensitiveItem" where
  "make_item p start stop m repl =
     \<lparr>item_id = item_id_of (p_type p) start stop,
      item_type = p_type p,
      label = p_label p,
      original = m,
      replacement = repl,
      startIndex = int start,
      endIndex = int stop,
      ignored = False\<rparr>"

text \<open>The body of the \<open>while\<close> loop for one match: \<open>start\<close> is \<open>match.index\<close>, \<open>m\<close> is
  \<open>match[0]\<close>, \<open>stop\<close> and \<open>span\<close> are the variables \<open>end\<close> and \<open>range\<close>.\<close>

definition process_match :: "DetectionPattern \<Rightarrow> nat \<Rightarrow> jsstring \<Rightarrow> scan_state \<Rightarrow> scan_state" where
  "process_match p start m st =
     (let stop = start + length m;
          span = (start, stop)
      in if list_ex (\<lambda>r. rangesOverlap span r) (usedRanges st) then st
         else if p_type p = ssn \<and> length (strip_non_digits m) \<noteq> 9 then st
         else if p_type p = phone
                 \<and> (length (strip_non_digits m) < 10 \<or> length (strip_non_digits m) > 15) then st
         else if p_type p = username \<and> \<not> looksLikeUsername m then st
         else
           (let (repl, cs) = getPlaceholder (p_prefix p) (counters st)
            in \<lparr>counters = cs,
                st_items = st_items st @ [make_item p start stop m repl],
                usedRanges = usedRanges st @ [span]\<rparr>))"

subsection \<open>Where a match ends\<close>

text \<open>\<open>advances z w n\<close>: the position \<open>w\<close> is the position \<open>z\<close> moved to the right over at
  least \<open>n\<close> code units of the same text.\<close>

definition advances :: "zipper \<Rightarrow> zipper \<Rightarrow> nat \<Rightarrow> bool" where
  "advances z w n = (\<exists>m. snd z = m @ snd w \<and> fst w = rev m @ fst z \<and> n \<le> length m)"

lemma advances_refl: "advances z z 0"
  by (simp add: advances_def)

lemma advances_trans: "advances z y a \<Longrightarrow> advances y w b \<Longrightarrow> advances z w (a + b)"
  unfolding advances_def
  by (elim exE conjE, rule_tac x="m @ ma" in exI) auto

lemma advances_weaken: "advances z w a \<Longrightarrow> b \<le> a \<Longrightarrow> advances z w b"
  unfolding advances_def by auto

lemma advances_step: "snd z = c # cs \<Longrightarrow> advances z (c # fst z, cs) 1"
  unfolding advances_def by (rule exI [of _ "[c]"]) simp

lemma RepeatMatcher_advances:
  assumes body: "\<And>z w. w \<in> set (m z) \<Longrightarrow> advances z w n0"
  shows "w \<in> set (RepeatMatcher m mn mx z) \<Longrightarrow> advances z w (min mn mx * n0)"
proof (induction mx arbitrary: mn z)
  case 0
  then show ?case using advances_refl [of z] by simp
next
  case (Suc mx)
  show ?case
  proof (cases "mn = 0")
    case True
    with Suc.prems consider "w = z"
      | y where "y \<in> set (m z)" "w \<in> set (RepeatMatcher m 0 mx y)" by auto
    then show ?thesis
    proof cases
      case 1
      with True show ?thesis using advances_refl [of z] by simp
    next
      case 2
      from Suc.IH [OF 2(2)] body [OF 2(1)] True show ?thesis
        using advances_trans [of z y n0 w 0] advances_weaken [of z w n0 0] by simp
    qed
  next
    case False
    with Suc.prems obtain y where
      y: "y \<in> set (m z)" "w \<in> set (RepeatMatcher m (mn - 1) mx y)" by auto
    have "min mn (Suc mx) * n0 = n0 + min (mn - 1) mx * n0"
      using False by (cases mn) auto
    with Suc.IH [OF y(2)] body [OF y(1)] show ?thesis
      using advances_trans [of z y n0 w "min (mn - 1) mx * n0"] by simp
  qed
qed

lemma rmatch_advances: "w \<in> set (rmatch r z) \<Longrightarrow> advances z w (minlen r)"
proof (induction r arbitrary: z w)
  case (Cls rs)
  show ?case
  proof (cases "snd z")
    case Nil
    with Cls show ?thesis by simp
  next
    case (Cons c cs)
    with Cls have "w = (c # fst z, cs)" by (simp split: if_splits)
    with Cons show ?thesis using advances_step [of z c cs] by simp
  qed
next
  case (NCls rs)
  show ?case
  proof (cases "snd z")
    case Nil
    with NCls show ?thesis by simp
  next
    case (Cons c cs)
    with NCls have "w = (c # fst z, cs)" by (simp split: if_splits)
    with Cons show ?thesis using advances_step [of z c cs] by simp
  qed
next
  case Empty
  then show ?case using advances_refl [of z] by simp
next
  case (Seq a b)
  then obtain y where "y \<in> set (rmatch a z)" "w \<in> set (rmatch b y)" by auto
  with Seq.IH show ?case using advances_trans [of z y "minlen a" w "minlen b"] by simp
next
  case (Alt a b)
  then consider "w \<in> set (rmatch a z)" | "w \<in> set (rmatch b z)" by auto
  then show ?case
    using Alt.IH advances_weaken [of z w "minlen a" "min (minlen a) (minlen b)"]
      advances_weaken [of z w "minlen b" "min (minlen a) (minlen b)"]
    by cases simp_all
next
  case (Rep mn mx r)
  have body: "\<And>z w. w \<in> set (rmatch r z) \<Longrightarrow> advances z w (minlen r)"
    using Rep.IH by blast
  show ?case
  proof (cases mx)
    case None
    with Rep.prems have "w \<in> set (RepeatMatcher (rmatch r) mn (mn + length (snd z)) z)" by simp
    from RepeatMatcher_advances [of "rmatch r" "minlen r", OF body this] None
    show ?thesis by simp
  next
    case (Some n)
    with Rep.prems have "w \<in> set (RepeatMatcher (rmatch r) mn n z)" by simp
    from RepeatMatcher_advances [of "rmatch r" "minlen r", OF body this] Some
    show ?thesis by simp
  qed
next
  case WordB
  then show ?case using advances_refl [of z] by (simp split: if_splits)
next
  case (Ahead r)
  then show ?case using advances_refl [of z] by (simp split: if_splits)
next
  case (Behind r)
  then show ?case using advances_refl [of z] by (simp split: if_splits)
qed

lemma regex_exec_result:
  "regex_exec r rp suf i = Some (start, m, z) \<Longrightarrow>
     \<exists>pre. suf = pre @ m @ snd z \<and> start = i + length pre \<and> fst z = rev m @ rev pre @ rp
           \<and> minlen r \<le> length m"
proof (induction suf arbitrary: rp i)
  case Nil
  then have "z \<in> set (rmatch r (rp, []))" and eq: "start = i" "m = []"
    by (auto split: list.splits)
  from rmatch_advances [OF this(1)] show ?case using eq by (auto simp: advances_def)
next
  case (Cons c cs)
  show ?case
  proof (cases "rmatch r (rp, c # cs)")
    case Nil
    with Cons.prems have "regex_exec r (c # rp) cs (Suc i) = Some (start, m, z)" by simp
    from Cons.IH [OF this] obtain pre where
      "cs = pre @ m @ snd z" "start = Suc i + length pre" "fst z = rev m @ rev pre @ c # rp"
      "minlen r \<le> length m" by blast
    then show ?thesis by (intro exI [of _ "c # pre"]) simp
  next
    case (Cons w ws)
    with Cons.prems have eq: "start = i" "z = w"
      "m = take (length (c # cs) - length (snd w)) (c # cs)" by auto
    from Cons have "w \<in> set (rmatch r (rp, c # cs))" by simp
    from rmatch_advances [OF this] obtain m' where
      m': "c # cs = m' @ snd w" "fst w = rev m' @ rp" "minlen r \<le> length m'"
      by (auto simp: advances_def)
    from m'(1) have "take (length (c # cs) - length (snd w)) (c # cs) = m'"
      by (metis add_diff_cancel_right' append_eq_conv_conj length_append)
    with eq m' show ?thesis by (intro exI [of _ "[]"]) simp
  qed
qed

lemma regex_exec_shorter:
  "regex_exec r rp suf i = Some (start, m, z) \<Longrightarrow> m \<noteq> [] \<Longrightarrow> length (snd z) < length suf"
  by (drule regex_exec_result) auto

subsection \<open>The scan\<close>

text \<open>
  The \<open>while\<close> loop over the matches of one pattern. \<open>exec\<close> resumes at \<open>lastIndex\<close>,
  the end of the last match, whether the match was accepted or not. After an empty match
  \<open>lastIndex\<close> would not move and the loop would run forever: the model answers \<open>None\<close>.
\<close>

function exec_loop :: "DetectionPattern \<Rightarrow> jsstring \<Rightarrow> jsstring \<Rightarrow> nat \<Rightarrow> scan_state \<Rightarrow> scan_state option" where
  "exec_loop p rp suf lastIndex st =
     (case regex_exec (pattern p) rp suf lastIndex of
        None \<Rightarrow> Some st
      | Some (start, m, z) \<Rightarrow>
          if m = [] then None
          else exec_loop p (fst z) (snd z) (start + length m) (process_match p start m st))"
  by pat_completeness auto
termination
  by (relation "measure (\<lambda>(p, rp, suf, lastIndex, st). length suf)")
     (auto dest: regex_exec_shorter)

declare exec_loop.simps [simp del]

text \<open>The \<open>for\<close> loop over the registry: every pattern scans the whole text with a fresh
  regular expression object (\<open>lastIndex = 0\<close>).\<close>

fun scan_all :: "DetectionPattern list \<Rightarrow> jsstring \<Rightarrow> scan_state \<Rightarrow> scan_state option" where
  "scan_all [] text st = Some st"
| "scan_all (p # ps) text st =
     (case exec_loop p [] text 0 st of None \<Rightarrow> None | Some st' \<Rightarrow> scan_all ps text st')"

definition detectSensitiveInfo :: "jsstring \<Rightarrow> GuardrailResult option" where
  "detectSensitiveInfo text =
     (case scan_all DETECTION_PATTERNS text \<lparr>counters = [], st_items = [], usedRanges = []\<rparr> of
        None \<Rightarrow> None
      | Some st \<Rightarrow>
          (let its = sort_key startIndex (st_items st)
           in Some \<lparr>hasSensitiveInfo = (length its > 0), items = its,
                     anonymizedText = applyReplacements text its\<rparr>))"

subsection \<open>Rules for the scan\<close>

text \<open>A pattern that cannot match the empty string never stalls the loop; and a property
  of the state that every loop body preserves, for matches that are stretches of the
  text, holds after the scan.\<close>

lemma exec_loop_total:
  "0 < minlen (pattern p) \<Longrightarrow> \<exists>st'. exec_loop p rp suf li st = Some st'"
proof (induction p rp suf li st rule: exec_loop.induct)
  case (1 p rp suf li st)
  show ?case
  proof (cases "regex_exec (pattern p) rp suf li")
    case None
    then show ?thesis by (simp add: exec_loop.simps)
  next
    case (Some r)
    obtain start m z where r: "r = (start, m, z)" by (cases r) auto
    from regex_exec_result [OF Some [unfolded r]] "1.prems"
    have m: "m \<noteq> []" by auto
    from Some r have exec: "regex_exec (pattern p) rp suf li = Some (start, m, z)" by simp
    have "\<exists>st'. exec_loop p (fst z) (snd z) (start + length m) (process_match p start m st) = Some st'"
      by (rule "1.IH" [of "(start, m, z)" start "(m, z)" m z])
         (fact exec refl m "1.prems")+
    with exec m show ?thesis by (simp add: exec_loop.simps [of p rp suf li st])
  qed
qed

lemma exec_loop_invariant:
  assumes step: "\<And>st start m. I st \<Longrightarrow> m \<noteq> [] \<Longrightarrow> take (length m) (drop start text) = m
                  \<Longrightarrow> start + length m \<le> length text \<Longrightarrow> I (process_match p start m st)"
  shows "exec_loop p rp suf li st = Some st' \<Longrightarrow> text = rev rp @ suf \<Longrightarrow> li = length rp
           \<Longrightarrow> I st \<Longrightarrow> I st'"
  using step
proof (induction p rp suf li st rule: exec_loop.induct)
  case (1 p rp suf li st)
  note step = "1.prems"(5)
  note running = "1.prems"(1)
  note txt_eq = "1.prems"(2)
  note li_eq = "1.prems"(3)
  note inv0 = "1.prems"(4)
  show ?case
  proof (cases "regex_exec (pattern p) rp suf li")
    case None
    have "exec_loop p rp suf li st = Some st"
      using None by (simp add: exec_loop.simps [of p rp suf li st])
    with running inv0 show ?thesis by simp
  next
    case (Some r)
    obtain start m z where r: "r = (start, m, z)" by (cases r) auto
    from Some r have exec: "regex_exec (pattern p) rp suf li = Some (start, m, z)" by simp
    from running exec have m: "m \<noteq> []"
      by (auto simp: exec_loop.simps [of p rp suf li st] split: if_splits)
    from regex_exec_result [OF exec] obtain pre where
      pre: "suf = pre @ m @ snd z" "start = li + length pre" "fst z = rev m @ rev pre @ rp"
      by blast
    from pre txt_eq li_eq have t: "text = (rev rp @ pre) @ m @ snd z" "start = length (rev rp @ pre)"
      by simp_all
    have slice: "take (length m) (drop start text) = m"
      unfolding t by simp
    have bound: "start + length m \<le> length text"
      unfolding t by simp
    have next_state: "exec_loop p (fst z) (snd z) (start + length m) (process_match p start m st) = Some st'"
      using running exec m by (simp add: exec_loop.simps [of p rp suf li st])
    have z: "text = rev (fst z) @ snd z" "start + length m = length (fst z)"
      using pre txt_eq li_eq by simp_all
    have inv': "I (process_match p start m st)"
      by (rule step [OF inv0 m slice bound])
    show ?thesis
    proof (rule "1.IH" [of "(start, m, z)" start "(m, z)" m z])
      show "regex_exec (pattern p) rp suf li = Some (start, m, z)" by (fact exec)
      show "(start, m, z) = (start, m, z)" by (rule refl)
      show "(m, z) = (m, z)" by (rule refl)
      show "m \<noteq> []" by (fact m)
      show "exec_loop p (fst z) (snd z) (start + length m) (process_match p start m st) = Some st'"
        by (fact next_state)
      show "text = rev (fst z) @ snd z" by (fact z(1))
      show "start + length m = length (fst z)" by (fact z(2))
      show "I (process_match p start m st)" by (fact inv')
      show "\<And>st start m. I st \<Longrightarrow> m \<noteq> [] \<Longrightarrow> take (length m) (drop start text) = m
                  \<Longrightarrow> start + length m \<le> length text \<Longrightarrow> I (process_match p start m st)"
        by (rule step)
    qed
  qed
qed

lemma scan_all_total:
  "\<forall>p \<in> set ps. 0 < minlen (pattern p) \<Longrightarrow> \<exists>st'. scan_all ps text st = Some st'"
proof (induction ps arbitrary: st)
  case Nil
  then show ?case by simp
next
  case (Cons p ps)
  from Cons.prems have "0 < minlen (pattern p)" by simp
  from exec_loop_total [OF this, of "[]" "text" 0 st]
  obtain st1 where st1: "exec_loop p [] text 0 st = Some st1" by blast
  from Cons.prems have "\<forall>p \<in> set ps. 0 < minlen (pattern p)" by simp
  from Cons.IH [OF this, of st1] st1 show ?case by simp
qed

lemma scan_all_invariant:
  assumes step: "\<And>p st start m. p \<in> set ps \<Longrightarrow> I st \<Longrightarrow> m \<noteq> []
                  \<Longrightarrow> take (length m) (drop start text) = m
                  \<Longrightarrow> start + length m \<le> length text \<Longrightarrow> I (process_match p start m st)"
  shows "scan_all ps text st = Some st' \<Longrightarrow> I st \<Longrightarrow> I st'"
  using step
proof (induction ps arbitrary: st)
  case Nil
  then show ?case by simp
next
  case (Cons p ps)
  from Cons.prems(1) obtain st1 where
    st1: "exec_loop p [] text 0 st = Some st1" "scan_all ps text st1 = Some st'"
    by (auto split: option.splits)
  have "\<And>st start m. I st \<Longrightarrow> m \<noteq> [] \<Longrightarrow> take (length m) (drop start text) = m
                  \<Longrightarrow> start + length m \<le> length text \<Longrightarrow> I (process_match p start m st)"
    by (rule Cons.prems(3)) simp_all
  note loop_step = this
  have st1_inv: "I st1"
  proof (rule exec_loop_invariant [of I "text" p, OF loop_step st1(1)])
    show "text = rev [] @ text" by simp
    show "0 = length ([] :: jsstring)" by simp
    show "I st" by (fact Cons.prems(2))
  qed
  show ?case
  proof (rule Cons.IH [OF st1(2) st1_inv])
    fix q st start m
    assume "q \<in> set ps" "I st" "m \<noteq> []" "take (length m) (drop start text) = m"
      "start + length m \<le> length text"
    then show "I (process_match q start m st)"
      by (intro Cons.prems(3)) simp_all
  qed
qed

text \<open>No pattern of the registry matches the empty string, so detection returns for
  every text.\<close>

lemma minlen_patterns:
  "0 < minlen email_re
   \<and> 0 < minlen credit_card_re
   \<and> 0 < minlen ssn_re
   \<and> 0 < minlen api_key_re
   \<and> 0 < minlen password_re
   \<and> 0 < minlen phone_re
   \<and> 0 < minlen address_eu_re
   \<and> 0 < minlen address_us_re
   \<and> 0 < minlen address_num_re
   \<and> 0 < minlen name_title_re
   \<and> 0 < minlen name_context_re
   \<and> 0 < minlen username_after_re
   \<and> 0 < minlen username_before_re
   \<and> 0 < minlen username_using_re
   \<and> 0 < minlen ip_address_re
   \<and> 0 < minlen dob_day_first_re
   \<and> 0 < minlen dob_month_first_re
   \<and> 0 < minlen dob_iso_re
   \<and> 0 < minlen dob_numeric_re
   \<and> 0 < minlen bank_re
   \<and> 0 < minlen medical_re"
  by code_simp

lemma patterns_nonempty: "\<forall>p \<in> set DETECTION_PATTERNS. 0 < minlen (pattern p)"
  using minlen_patterns by (simp add: DETECTION_PATTERNS_def mk_pattern_def)

lemma detect_total: "\<exists>res. detectSensitiveInfo text = Some res"
  using scan_all_total [OF patterns_nonempty, of "text" "\<lparr>counters = [], st_items = [], usedRanges = []\<rparr>"]
  by (auto simp: detectSensitiveInfo_def Let_def)

lemma detect_scan:
  "detectSensitiveInfo text = Some res \<Longrightarrow>
     \<exists>st. scan_all DETECTION_PATTERNS text \<lparr>counters = [], st_items = [], usedRanges = []\<rparr> = Some st
        \<and> items res = sort_key startIndex (st_items st)
        \<and> hasSensitiveInfo res = (items res \<noteq> [])
        \<and> anonymizedText res = applyReplacements text (items res)"
  by (auto simp: detectSensitiveInfo_def Let_def split: option.splits)


section \<open>Properties of strings and objects\<close>

lemma js_includes_sublist: "js_includes t k \<longleftrightarrow> sublist k t"
  by (induction t) (auto simp: sublist_Cons_right)

lemma mset_Object_entries: "mset (Object_entries m) = mset m"
  unfolding Object_entries_def by (induction m) (auto simp: case_prod_unfold)

lemma set_Object_entries: "set (Object_entries m) = set m"
  using mset_Object_entries [of m] by (metis set_mset_mset)

lemma set_Object_keys: "set (Object_keys m) = fst ` set m"
  by (simp add: Object_keys_def set_Object_entries)








section \<open>The reveal predicate\<close>

text \<open>
  Claim C7, as the code has it. \<open>hasMappablePlaceholders\<close> answers false for the empty
  text whatever the mapping; for every other text it is true exactly when some key of the
  mapping occurs in the text as a contiguous substring (the empty key occurs in every
  text, as \<open>includes\<close> has it).
\<close>

theorem hasMappablePlaceholders_iff:
  "hasMappablePlaceholders text mapping \<longleftrightarrow>
     text \<noteq> [] \<and> (\<exists>k \<in> fst ` set mapping. sublist k text)"
proof (cases "Object_keys mapping = []")
  case True
  then have "fst ` set mapping = {}"
    using set_Object_keys [of mapping] by simp
  with True show ?thesis
    by (simp add: hasMappablePlaceholders_def)
next
  case False
  then show ?thesis
    by (simp add: hasMappablePlaceholders_def list_ex_iff set_Object_keys [symmetric]
        js_includes_sublist)
qed

text \<open>
  The claim as stated (true exactly when a key occurs in the text, the empty text
  included) fails for the empty text and the mapping \<open>{"": "x"}\<close>: the empty key occurs in
  the empty text, and the answer is false.
\<close>

theorem hasMappablePlaceholders_empty_text_counterexample:
  "\<not> (hasMappablePlaceholders [] [([], js ''x'')]
        \<longleftrightarrow> (\<exists>k \<in> fst ` set [([], js ''x'')]. sublist k []))"
  by (simp add: hasMappablePlaceholders_def)

section \<open>Merging a mapping into the session's mapping\<close>








section \<open>Scenario A\<close>

text \<open>
  Claim C9. For the text \<open>Contact me at jane.doe@example.com or call 415-555-0199\<close>
  detection returns exactly two items, the email address (code units 14 to 34) before the
  phone number (43 to 55), and the anonymized text
  \<open>Contact me at [EMAIL_1] or call [PHONE_1]\<close>.
\<close>

theorem scenario_A:
  "detectSensitiveInfo (js ''Contact me at jane.doe@example.com or call 415-555-0199'') =
     Some \<lparr>hasSensitiveInfo = True,
            items =
              [\<lparr>item_id = js ''email-14-34'', item_type = email, label = js ''Email Address'',
                 original = js ''jane.doe@example.com'', replacement = js ''[EMAIL_1]'',
                 startIndex = 14, endIndex = 34, ignored = False\<rparr>,
               \<lparr>item_id = js ''phone-43-55'', item_type = phone, label = js ''Phone Number'',
                 original = js ''415-555-0199'', replacement = js ''[PHONE_1]'',
                 startIndex = 43, endIndex = 55, ignored = False\<rparr>],
            anonymizedText = js ''Contact me at [EMAIL_1] or call [PHONE_1]''\<rparr>"
  by code_simp

section \<open>What the scan accepts\<close>

text \<open>The counter of a prefix (\<open>counters[prefix] || 0\<close>), and what the validators of the loop
  body let through.\<close>

definition the_count :: "(jsstring \<times> nat) list \<Rightarrow> jsstring \<Rightarrow> nat" where
  "the_count cs pfx = (case map_of cs pfx of None \<Rightarrow> 0 | Some c \<Rightarrow> c)"

definition validated :: "SensitiveInfoType \<Rightarrow> jsstring \<Rightarrow> bool" where
  "validated t m =
     ((t = ssn \<longrightarrow> length (strip_non_digits m) = 9)
      \<and> (t = phone \<longrightarrow> 10 \<le> length (strip_non_digits m) \<and> length (strip_non_digits m) \<le> 15))"

lemma process_match_cases:
  "process_match p start m st = st
   \<or> (\<not> list_ex (\<lambda>r. rangesOverlap (start, start + length m) r) (usedRanges st)
      \<and> validated (p_type p) m
      \<and> process_match p start m st =
          \<lparr>counters = AList.update (p_prefix p) (the_count (counters st) (p_prefix p) + 1) (counters st),
           st_items = st_items st @
             [make_item p start (start + length m) m
                (placeholder_text (p_prefix p) (the_count (counters st) (p_prefix p) + 1))],
           usedRanges = usedRanges st @ [(start, start + length m)]\<rparr>)"
  by (auto simp: process_match_def Let_def getPlaceholder_def the_count_def validated_def)

lemma scan_items_all:
  assumes acc: "\<And>p start m repl. p \<in> set ps \<Longrightarrow> m \<noteq> [] \<Longrightarrow> take (length m) (drop start text) = m
                 \<Longrightarrow> start + length m \<le> length text \<Longrightarrow> validated (p_type p) m
                 \<Longrightarrow> Q (make_item p start (start + length m) m repl)"
    and run: "scan_all ps text st = Some st'"
    and init: "\<forall>it \<in> set (st_items st). Q it"
  shows "\<forall>it \<in> set (st_items st'). Q it"
proof (rule scan_all_invariant [of ps "\<lambda>st. \<forall>it \<in> set (st_items st). Q it" "text" st st'])
  fix p and st :: scan_state and start m
  assume p: "p \<in> set ps" and inv: "\<forall>it \<in> set (st_items st). Q it" and m: "m \<noteq> []"
    and slice: "take (length m) (drop start text) = m" and bound: "start + length m \<le> length text"
  from process_match_cases [of p start m st]
  show "\<forall>it \<in> set (st_items (process_match p start m st)). Q it"
  proof
    assume "process_match p start m st = st"
    with inv show ?thesis by simp
  next
    assume a: "\<not> list_ex (\<lambda>r. rangesOverlap (start, start + length m) r) (usedRanges st)
      \<and> validated (p_type p) m
      \<and> process_match p start m st =
          \<lparr>counters = AList.update (p_prefix p) (the_count (counters st) (p_prefix p) + 1) (counters st),
           st_items = st_items st @
             [make_item p start (start + length m) m
                (placeholder_text (p_prefix p) (the_count (counters st) (p_prefix p) + 1))],
           usedRanges = usedRanges st @ [(start, start + length m)]\<rparr>"
    then have "Q (make_item p start (start + length m) m
                (placeholder_text (p_prefix p) (the_count (counters st) (p_prefix p) + 1)))"
      using acc [OF p m slice bound] by blast
    with a inv show ?thesis by simp
  qed
qed (fact run init)+

lemma detect_items_all:
  assumes acc: "\<And>p start m repl. p \<in> set DETECTION_PATTERNS \<Longrightarrow> m \<noteq> []
                 \<Longrightarrow> take (length m) (drop start text) = m
                 \<Longrightarrow> start + length m \<le> length text \<Longrightarrow> validated (p_type p) m
                 \<Longrightarrow> Q (make_item p start (start + length m) m repl)"
    and res: "detectSensitiveInfo text = Some res"
  shows "\<forall>it \<in> set (items res). Q it"
proof -
  from detect_scan [OF res] obtain st where
    st: "scan_all DETECTION_PATTERNS text \<lparr>counters = [], st_items = [], usedRanges = []\<rparr> = Some st"
    and its: "items res = sort_key startIndex (st_items st)" by blast
  have "\<forall>it \<in> set (st_items st). Q it"
    by (rule scan_items_all [of DETECTION_PATTERNS "text" Q, OF acc st]) simp_all
  with its show ?thesis by simp
qed

section \<open>Validator bounds\<close>

text \<open>
  Claim C5. Detection returns for every text, and in its result an item of category \<open>ssn\<close>
  has exactly 9 digits once the non-digits are stripped, an item of category \<open>phone\<close> has
  between 10 and 15; so no item with 8 digits is an \<open>ssn\<close> item and no item with 16 digits
  is a \<open>phone\<close> item.
\<close>

theorem validator_bounds:
  "\<exists>res. detectSensitiveInfo text = Some res
     \<and> (\<forall>it \<in> set (items res).
           (item_type it = ssn \<longrightarrow> length (strip_non_digits (original it)) = 9)
         \<and> (item_type it = phone \<longrightarrow> 10 \<le> length (strip_non_digits (original it))
                                    \<and> length (strip_non_digits (original it)) \<le> 15)
         \<and> (length (strip_non_digits (original it)) = 8 \<longrightarrow> item_type it \<noteq> ssn)
         \<and> (length (strip_non_digits (original it)) = 16 \<longrightarrow> item_type it \<noteq> phone))"
proof -
  obtain res where res: "detectSensitiveInfo text = Some res"
    using detect_total by blast
  have "\<forall>it \<in> set (items res). validated (item_type it) (original it)"
    by (rule detect_items_all [OF _ res]) (simp add: make_item_def)
  then have "\<forall>it \<in> set (items res).
           (item_type it = ssn \<longrightarrow> length (strip_non_digits (original it)) = 9)
         \<and> (item_type it = phone \<longrightarrow> 10 \<le> length (strip_non_digits (original it))
                                    \<and> length (strip_non_digits (original it)) \<le> 15)
         \<and> (length (strip_non_digits (original it)) = 8 \<longrightarrow> item_type it \<noteq> ssn)
         \<and> (length (strip_non_digits (original it)) = 16 \<longrightarrow> item_type it \<noteq> phone)"
    by (auto simp: validated_def)
  with res show ?thesis by blast
qed

section \<open>Numerals and identifiers\<close>

lemma nat_to_string_digits: "c \<in> set (nat_to_string n) \<Longrightarrow> 48 \<le> c \<and> c \<le> 57"
proof (induction n rule: nat_to_string.induct)
  case (1 n)
  show ?case
  proof (cases "n < 10")
    case True
    with "1.prems" show ?thesis by (simp add: nat_to_string.simps [of n])
  next
    case False
    with "1.prems" have "c \<in> set (nat_to_string (n div 10)) \<or> c = 48 + int (n mod 10)"
      by (auto simp: nat_to_string.simps [of n])
    with "1.IH" False show ?thesis by auto
  qed
qed

lemma decimal_value_snoc: "decimal_value (xs @ [c]) = 10 * decimal_value xs + (c - 48)"
  by (simp add: decimal_value_def)

lemma decimal_value_nat_to_string: "decimal_value (nat_to_string n) = int n"
proof (induction n rule: nat_to_string.induct)
  case (1 n)
  show ?case
  proof (cases "n < 10")
    case True
    then show ?thesis by (simp add: nat_to_string.simps [of n] decimal_value_def)
  next
    case False
    with "1.IH" have ih: "decimal_value (nat_to_string (n div 10)) = int (n div 10)" by simp
    have "int (n div 10 * 10 + n mod 10) = int n" by (simp only: div_mult_mod_eq)
    then have n: "int n = 10 * int (n div 10) + int (n mod 10)"
      by (simp only: of_nat_add of_nat_mult of_nat_numeral mult.commute)
    have "decimal_value (nat_to_string n)
            = decimal_value (nat_to_string (n div 10) @ [48 + int (n mod 10)])"
      using False by (simp add: nat_to_string.simps [of n])
    also have "\<dots> = 10 * int (n div 10) + int (n mod 10)"
      by (simp add: decimal_value_snoc ih)
    finally show ?thesis using n by simp
  qed
qed

lemma nat_to_string_inj: "nat_to_string a = nat_to_string b \<Longrightarrow> a = b"
  by (metis decimal_value_nat_to_string of_nat_eq_iff)

lemma nat_to_string_nonempty: "nat_to_string n \<noteq> []"
  by (simp add: nat_to_string.simps [of n])

lemma split_at_first:
  "a @ c # b = a' @ c # b' \<Longrightarrow> c \<notin> set a \<Longrightarrow> c \<notin> set a' \<Longrightarrow> a = a' \<and> b = b'"
proof (induction a arbitrary: a')
  case Nil
  then show ?case by (cases a') auto
next
  case (Cons x a)
  then show ?case by (cases a') auto
qed

lemma split_at_last:
  assumes "a @ c # b = a' @ c # b'" "c \<notin> set b" "c \<notin> set b'"
  shows "a = a' \<and> b = b'"
proof -
  from assms(1) have "rev (a @ c # b) = rev (a' @ c # b')" by simp
  then have "rev b @ c # rev a = rev b' @ c # rev a'" by simp
  from split_at_first [OF this] assms(2,3) show ?thesis by simp
qed

lemma type_name_inj: "type_name a = type_name b \<Longrightarrow> a = b"
  by (cases a; cases b; simp add: type_name_def js_def)

lemma no_dash_in_number: "45 \<notin> set (nat_to_string n)"
  using nat_to_string_digits [of 45 n] by auto

lemma item_id_of_inj:
  assumes "item_id_of t s e = item_id_of t' s' e'"
  shows "t = t' \<and> s = s' \<and> e = e'"
proof -
  from assms have
    "(type_name t @ 45 # nat_to_string s) @ 45 # nat_to_string e
       = (type_name t' @ 45 # nat_to_string s') @ 45 # nat_to_string e'"
    by (simp add: item_id_of_def js_def)
  from split_at_last [OF this no_dash_in_number no_dash_in_number]
  have 1: "type_name t @ 45 # nat_to_string s = type_name t' @ 45 # nat_to_string s'"
    and 2: "nat_to_string e = nat_to_string e'" by simp_all
  from split_at_last [OF 1 no_dash_in_number no_dash_in_number]
  have "type_name t = type_name t'" "nat_to_string s = nat_to_string s'" by simp_all
  with 2 show ?thesis using type_name_inj nat_to_string_inj by blast
qed

section \<open>Item faithfulness\<close>

text \<open>What every item of a scan satisfies with respect to the scanned text.\<close>

definition item_faithful :: "jsstring \<Rightarrow> SensitiveItem \<Rightarrow> bool" where
  "item_faithful text it =
     (0 \<le> startIndex it \<and> startIndex it < endIndex it \<and> endIndex it \<le> int (length text)
      \<and> original it = js_substring text (startIndex it) (endIndex it)
      \<and> item_id it = item_id_of (item_type it) (nat (startIndex it)) (nat (endIndex it))
      \<and> \<not> ignored it)"

lemma js_substring_slice:
  "a \<le> b \<Longrightarrow> b \<le> length s \<Longrightarrow> js_substring s (int a) (int b) = take (b - a) (drop a s)"
  by (simp add: js_substring_def Let_def min_def max_def nat_diff_distrib') 

lemma detect_items_faithful:
  assumes "detectSensitiveInfo text = Some res"
  shows "\<forall>it \<in> set (items res). item_faithful text it"
proof (rule detect_items_all [OF _ assms])
  fix p start m repl
  assume m: "m \<noteq> []" and slice: "take (length m) (drop start text) = m"
    and bound: "start + length m \<le> length text"
  have "js_substring text (int start) (int (start + length m)) = take (length m) (drop start text)"
    using js_substring_slice [of start "start + length m" "text"] bound by simp
  with m slice bound show "item_faithful text (make_item p start (start + length m) m repl)"
    by (simp add: item_faithful_def make_item_def nat_int_add)
qed

text \<open>
  Claim C10. Detection returns for every text, and every item of its result has
  \<open>0 \<le> startIndex < endIndex \<le> length text\<close>, its \<open>original\<close> is the substring of the text at
  \<open>[startIndex, endIndex)\<close>, its identifier is built from its category and its span, and two
  items with the same identifier have the same category and the same span.
\<close>

theorem item_faithfulness:
  "\<exists>res. detectSensitiveInfo text = Some res
     \<and> (\<forall>it \<in> set (items res).
           0 \<le> startIndex it \<and> startIndex it < endIndex it \<and> endIndex it \<le> int (length text)
         \<and> original it = js_substring text (startIndex it) (endIndex it)
         \<and> item_id it = item_id_of (item_type it) (nat (startIndex it)) (nat (endIndex it)))
     \<and> (\<forall>a \<in> set (items res). \<forall>b \<in> set (items res).
           item_id a = item_id b \<longrightarrow>
             item_type a = item_type b \<and> startIndex a = startIndex b \<and> endIndex a = endIndex b)"
proof -
  obtain res where res: "detectSensitiveInfo text = Some res"
    using detect_total by blast
  note f = detect_items_faithful [OF res]
  have inj: "\<forall>a \<in> set (items res). \<forall>b \<in> set (items res).
           item_id a = item_id b \<longrightarrow>
             item_type a = item_type b \<and> startIndex a = startIndex b \<and> endIndex a = endIndex b"
  proof (intro ballI impI)
    fix a b
    assume a: "a \<in> set (items res)" and b: "b \<in> set (items res)" and eq: "item_id a = item_id b"
    from f a b have fa: "item_faithful text a" and fb: "item_faithful text b" by simp_all
    with eq have "item_id_of (item_type a) (nat (startIndex a)) (nat (endIndex a))
                  = item_id_of (item_type b) (nat (startIndex b)) (nat (endIndex b))"
      by (simp add: item_faithful_def)
    from item_id_of_inj [OF this] fa fb
    show "item_type a = item_type b \<and> startIndex a = startIndex b \<and> endIndex a = endIndex b"
      by (auto simp: item_faithful_def)
  qed
  from f have "\<forall>it \<in> set (items res).
           0 \<le> startIndex it \<and> startIndex it < endIndex it \<and> endIndex it \<le> int (length text)
         \<and> original it = js_substring text (startIndex it) (endIndex it)
         \<and> item_id it = item_id_of (item_type it) (nat (startIndex it)) (nat (endIndex it))"
    by (simp add: item_faithful_def)
  with res inj show ?thesis by blast
qed

section \<open>Disjoint ranges, sorted by start\<close>

definition item_range :: "SensitiveItem \<Rightarrow> int \<times> int" where
  "item_range it = (startIndex it, endIndex it)"

definition disjoint_items :: "SensitiveItem \<Rightarrow> SensitiveItem \<Rightarrow> bool" where
  "disjoint_items a b = (\<not> rangesOverlap (item_range a) (item_range b))"

lemma disjoint_items_sym: "disjoint_items a b \<Longrightarrow> disjoint_items b a"
  by (auto simp: disjoint_items_def rangesOverlap_def)

lemma sorted_wrt_insort_key:
  assumes sym: "\<And>a b. P a b \<Longrightarrow> P b a"
  shows "sorted_wrt P xs \<Longrightarrow> \<forall>y \<in> set xs. P x y \<Longrightarrow> sorted_wrt P (insort_key f x xs)"
  by (induction xs) (auto simp: set_insort_key intro: sym)

lemma sorted_wrt_sort_key:
  assumes sym: "\<And>a b. P a b \<Longrightarrow> P b a"
  shows "sorted_wrt P xs \<Longrightarrow> sorted_wrt P (sort_key f xs)"
proof (induction xs)
  case Nil
  then show ?case by simp
next
  case (Cons x xs)
  then have "sorted_wrt P (sort_key f xs)" "\<forall>y \<in> set (sort_key f xs). P x y" by simp_all
  from sorted_wrt_insort_key [of P, OF sym this] show ?case by simp
qed

definition ranges_inv :: "scan_state \<Rightarrow> bool" where
  "ranges_inv st =
     (usedRanges st = map (\<lambda>it. (nat (startIndex it), nat (endIndex it))) (st_items st)
      \<and> (\<forall>it \<in> set (st_items st). 0 \<le> startIndex it \<and> 0 \<le> endIndex it)
      \<and> sorted_wrt disjoint_items (st_items st))"

lemma ranges_inv_step:
  assumes "ranges_inv st"
  shows "ranges_inv (process_match p start m st)"
  using process_match_cases [of p start m st]
proof
  assume "process_match p start m st = st"
  with assms show ?thesis by simp
next
  assume a: "\<not> list_ex (\<lambda>r. rangesOverlap (start, start + length m) r) (usedRanges st)
      \<and> validated (p_type p) m
      \<and> process_match p start m st =
          \<lparr>counters = AList.update (p_prefix p) (the_count (counters st) (p_prefix p) + 1) (counters st),
           st_items = st_items st @
             [make_item p start (start + length m) m
                (placeholder_text (p_prefix p) (the_count (counters st) (p_prefix p) + 1))],
           usedRanges = usedRanges st @ [(start, start + length m)]\<rparr>"
  let ?new = "make_item p start (start + length m) m
                (placeholder_text (p_prefix p) (the_count (counters st) (p_prefix p) + 1))"
  from a assms have "\<forall>it \<in> set (st_items st).
      \<not> rangesOverlap (start, start + length m) (nat (startIndex it), nat (endIndex it))"
    by (auto simp: ranges_inv_def list_ex_iff)
  then have "\<forall>it \<in> set (st_items st). disjoint_items it ?new"
  proof (intro ballI)
    fix it
    assume it: "it \<in> set (st_items st)"
      and no: "\<forall>it \<in> set (st_items st).
        \<not> rangesOverlap (start, start + length m) (nat (startIndex it), nat (endIndex it))"
    from it no have "\<not> (start < nat (endIndex it) \<and> nat (startIndex it) < start + length m)"
      by (simp add: rangesOverlap_def)
    moreover from it assms have "0 \<le> startIndex it" "0 \<le> endIndex it"
      by (simp_all add: ranges_inv_def)
    ultimately have "\<not> (startIndex it < int start + int (length m) \<and> int start < endIndex it)"
      by arith
    then show "disjoint_items it ?new"
      by (simp add: disjoint_items_def item_range_def rangesOverlap_def make_item_def)
  qed
  with a assms show ?thesis
    by (simp add: ranges_inv_def sorted_wrt_append make_item_def)
qed

lemma detect_sorted_disjoint:
  assumes res: "detectSensitiveInfo text = Some res"
  shows "sorted (map startIndex (items res)) \<and> sorted_wrt disjoint_items (items res)"
proof -
  from detect_scan [OF res] obtain st where
    st: "scan_all DETECTION_PATTERNS text \<lparr>counters = [], st_items = [], usedRanges = []\<rparr> = Some st"
    and its: "items res = sort_key startIndex (st_items st)" by blast
  have "ranges_inv st"
    by (rule scan_all_invariant [of DETECTION_PATTERNS ranges_inv "text", OF _ st])
       (simp_all add: ranges_inv_step, simp add: ranges_inv_def)
  then have "sorted_wrt disjoint_items (st_items st)" by (simp add: ranges_inv_def)
  from sorted_wrt_sort_key [of disjoint_items, OF disjoint_items_sym this] its
  show ?thesis by simp
qed

text \<open>
  Claim C2. Detection returns for every text; the items of its result are sorted ascending
  by \<open>startIndex\<close>, and no two of them have ranges that overlap, overlap being tested as
  \<open>rangesOverlap\<close> tests it.
\<close>

theorem items_disjoint_and_sorted:
  "\<exists>res. detectSensitiveInfo text = Some res
     \<and> sorted (map startIndex (items res))
     \<and> (\<forall>i < length (items res). \<forall>j < length (items res). i \<noteq> j \<longrightarrow>
           \<not> rangesOverlap (startIndex (items res ! i), endIndex (items res ! i))
                            (startIndex (items res ! j), endIndex (items res ! j)))"
proof -
  obtain res where res: "detectSensitiveInfo text = Some res"
    using detect_total by blast
  from detect_sorted_disjoint [OF res]
  have s: "sorted (map startIndex (items res))" and d: "sorted_wrt disjoint_items (items res)"
    by simp_all
  have "\<forall>i < length (items res). \<forall>j < length (items res). i \<noteq> j \<longrightarrow>
           \<not> rangesOverlap (startIndex (items res ! i), endIndex (items res ! i))
                            (startIndex (items res ! j), endIndex (items res ! j))"
  proof (intro allI impI)
    fix i j
    assume i: "i < length (items res)" and j: "j < length (items res)" and ne: "i \<noteq> j"
    from ne consider "i < j" | "j < i" by linarith
    then have "disjoint_items (items res ! i) (items res ! j)"
    proof cases
      case 1
      with d j show ?thesis by (simp add: sorted_wrt_iff_nth_less)
    next
      case 2
      with d i have "disjoint_items (items res ! j) (items res ! i)"
        by (simp add: sorted_wrt_iff_nth_less)
      then show ?thesis by (rule disjoint_items_sym)
    qed
    then show "\<not> rangesOverlap (startIndex (items res ! i), endIndex (items res ! i))
                            (startIndex (items res ! j), endIndex (items res ! j))"
      by (simp add: disjoint_items_def item_range_def)
  qed
  with s res show ?thesis by blast
qed

section \<open>Placeholders\<close>

text \<open>The prefix that the registry gives the rules of a category.\<close>

definition prefix_of_type :: "SensitiveInfoType \<Rightarrow> jsstring" where
  "prefix_of_type t =
     (case find (\<lambda>p. p_type p = t) DETECTION_PATTERNS of None \<Rightarrow> [] | Some p \<Rightarrow> p_prefix p)"

lemma registry_prefix: "\<forall>p \<in> set DETECTION_PATTERNS. p_prefix p = prefix_of_type (p_type p)"
  by (simp add: DETECTION_PATTERNS_def mk_pattern_def prefix_of_type_def)

lemma no_underscore_in_number: "95 \<notin> set (nat_to_string n)"
  using nat_to_string_digits [of 95 n] by auto

lemma placeholder_text_inj:
  assumes "placeholder_text pfx n = placeholder_text pfx' n'"
  shows "pfx = pfx' \<and> n = n'"
proof -
  from assms have "(pfx @ 95 # nat_to_string n) @ [93] = (pfx' @ 95 # nat_to_string n') @ [93]"
    by (simp add: placeholder_text_def js_def)
  then have "pfx @ 95 # nat_to_string n = pfx' @ 95 # nat_to_string n'" by simp
  from split_at_last [OF this no_underscore_in_number no_underscore_in_number]
  show ?thesis using nat_to_string_inj by blast
qed

definition with_prefix :: "jsstring \<Rightarrow> SensitiveItem list \<Rightarrow> SensitiveItem list" where
  "with_prefix pfx its = filter (\<lambda>it. prefix_of_type (item_type it) = pfx) its"

definition counters_inv :: "scan_state \<Rightarrow> bool" where
  "counters_inv st =
     (\<forall>pfx. map replacement (with_prefix pfx (st_items st))
              = map (placeholder_text pfx) [1..<Suc (the_count (counters st) pfx)])"

lemma the_count_update:
  "the_count (AList.update k n cs) pfx = (if pfx = k then n else the_count cs pfx)"
  by (simp add: the_count_def update_conv')

lemma counters_inv_step:
  assumes inv: "counters_inv st" and p: "p \<in> set DETECTION_PATTERNS"
  shows "counters_inv (process_match p start m st)"
  using process_match_cases [of p start m st]
proof
  assume "process_match p start m st = st"
  with inv show ?thesis by simp
next
  let ?n = "the_count (counters st) (p_prefix p) + 1"
  let ?new = "make_item p start (start + length m) m (placeholder_text (p_prefix p) ?n)"
  assume a: "\<not> list_ex (\<lambda>r. rangesOverlap (start, start + length m) r) (usedRanges st)
      \<and> validated (p_type p) m
      \<and> process_match p start m st =
          \<lparr>counters = AList.update (p_prefix p) ?n (counters st),
           st_items = st_items st @ [?new],
           usedRanges = usedRanges st @ [(start, start + length m)]\<rparr>"
  from p registry_prefix have pp: "prefix_of_type (item_type ?new) = p_prefix p"
    by (simp add: make_item_def)
  have "map replacement (with_prefix pfx (st_items st @ [?new]))
          = map (placeholder_text pfx)
              [1..<Suc (the_count (AList.update (p_prefix p) ?n (counters st)) pfx)]" for pfx
  proof (cases "pfx = p_prefix p")
    case True
    have "replacement ?new = placeholder_text (p_prefix p) ?n" by (simp add: make_item_def)
    with inv True pp show ?thesis
      by (simp add: counters_inv_def with_prefix_def the_count_update)
  next
    case False
    with inv pp show ?thesis
      by (auto simp: counters_inv_def with_prefix_def the_count_update)
  qed
  with a show ?thesis by (simp add: counters_inv_def)
qed

lemma distinct_by_groups:
  assumes "\<And>x y. x \<in> set xs \<Longrightarrow> y \<in> set xs \<Longrightarrow> f x = f y \<Longrightarrow> g x = g y"
    and "\<And>k. distinct (map f (filter (\<lambda>x. g x = k) xs))"
  shows "distinct (map f xs)"
  using assms
proof (induction xs)
  case Nil
  then show ?case by simp
next
  case (Cons x xs)
  have "distinct (map f xs)"
  proof (rule Cons.IH)
    fix a b assume "a \<in> set xs" "b \<in> set xs" "f a = f b"
    then show "g a = g b" using Cons.prems(1) [of a b] by simp
  next
    fix k
    from Cons.prems(2) [of k] show "distinct (map f (filter (\<lambda>x. g x = k) xs))"
      by (simp split: if_splits)
  qed
  moreover have "f x \<notin> f ` set xs"
  proof
    assume "f x \<in> f ` set xs"
    then obtain y where y: "y \<in> set xs" "f x = f y" by auto
    with Cons.prems(1) [of x y] have "g y = g x" by simp
    with y Cons.prems(2) [of "g x"] show False by (auto simp: image_iff)
  qed
  ultimately show ?case by simp
qed

lemma detect_placeholders:
  assumes res: "detectSensitiveInfo text = Some res"
  shows "(\<forall>pfx. set (map replacement (with_prefix pfx (items res)))
                 = placeholder_text pfx ` {1..length (with_prefix pfx (items res))}
              \<and> distinct (map replacement (with_prefix pfx (items res))))
     \<and> distinct (map replacement (items res))
     \<and> (\<forall>it \<in> set (items res). \<exists>pfx n. replacement it = placeholder_text pfx n)"
proof -
  from detect_scan [OF res] obtain st where
    st: "scan_all DETECTION_PATTERNS text \<lparr>counters = [], st_items = [], usedRanges = []\<rparr> = Some st"
    and its: "items res = sort_key startIndex (st_items st)" by blast
  have "counters_inv st"
    by (rule scan_all_invariant [of DETECTION_PATTERNS counters_inv "text", OF _ st])
       (simp_all add: counters_inv_step, simp add: counters_inv_def with_prefix_def the_count_def)
  then have acc: "map replacement (with_prefix pfx (st_items st))
              = map (placeholder_text pfx) [1..<Suc (the_count (counters st) pfx)]" for pfx
    by (simp add: counters_inv_def)
  have len: "length (with_prefix pfx (st_items st)) = the_count (counters st) pfx" for pfx
    using arg_cong [OF acc [of pfx], of length] by simp
  have inj: "inj_on (placeholder_text pfx) A" for pfx A
    using placeholder_text_inj by (auto simp: inj_on_def)
  have d0: "distinct (map replacement (with_prefix pfx (st_items st)))" for pfx
    by (simp add: acc [of pfx] distinct_map inj)
  have s0: "set (map replacement (with_prefix pfx (st_items st)))
              = placeholder_text pfx ` {1..length (with_prefix pfx (st_items st))}" for pfx
    by (simp only: len acc [of pfx]) (auto simp: image_iff)
  have g: "with_prefix pfx (items res) = sort_key startIndex (with_prefix pfx (st_items st))" for pfx
    by (simp add: its with_prefix_def filter_sort)
  have m: "mset (map replacement (sort_key startIndex ys)) = mset (map replacement ys)" for ys
    by simp
  have d1: "distinct (map replacement (with_prefix pfx (items res)))" for pfx
    using d0 [of pfx] m [of "with_prefix pfx (st_items st)"] g [of pfx]
    by (metis mset_eq_imp_distinct_iff)
  have s1: "set (map replacement (with_prefix pfx (items res)))
              = placeholder_text pfx ` {1..length (with_prefix pfx (items res))}" for pfx
    using s0 [of pfx] by (simp add: g [of pfx])
  have form: "\<exists>n. replacement x = placeholder_text (prefix_of_type (item_type x)) n"
    if x: "x \<in> set (st_items st)" for x
  proof -
    from x have "replacement x \<in> set (map replacement (with_prefix (prefix_of_type (item_type x)) (st_items st)))"
      by (simp add: with_prefix_def)
    then show ?thesis unfolding acc by auto
  qed
  have all: "distinct (map replacement (st_items st))"
  proof (rule distinct_by_groups [where g = "\<lambda>it. prefix_of_type (item_type it)"])
    fix k
    show "distinct (map replacement (filter (\<lambda>x. prefix_of_type (item_type x) = k) (st_items st)))"
      using d0 [of k] by (simp add: with_prefix_def)
  next
    fix x y
    assume x: "x \<in> set (st_items st)" and y: "y \<in> set (st_items st)"
      and eq: "replacement x = replacement y"
    from form [OF x] obtain i where i: "replacement x = placeholder_text (prefix_of_type (item_type x)) i"
      by blast
    from form [OF y] obtain j where j: "replacement y = placeholder_text (prefix_of_type (item_type y)) j"
      by blast
    from i j eq show "prefix_of_type (item_type x) = prefix_of_type (item_type y)"
      using placeholder_text_inj by metis
  qed
  have "distinct (map replacement (items res))"
    using all m [of "st_items st"] its by (metis mset_eq_imp_distinct_iff)
  moreover have "\<forall>it \<in> set (items res). \<exists>pfx n. replacement it = placeholder_text pfx n"
  proof (intro ballI)
    fix it
    assume "it \<in> set (items res)"
    then have "it \<in> set (st_items st)" using its by simp
    from form [OF this] show "\<exists>pfx n. replacement it = placeholder_text pfx n" by blast
  qed
  ultimately show ?thesis using d1 s1 by blast
qed

text \<open>
  Claim C4. Detection returns for every text. In its result, for every prefix, the items of
  the categories with that prefix carry exactly the placeholders \<open>[PREFIX_1]\<close> to
  \<open>[PREFIX_N]\<close>, \<open>N\<close> being their number, each once; and no two items of the result carry
  the same placeholder.
\<close>

theorem placeholder_uniqueness:
  "\<exists>res. detectSensitiveInfo text = Some res
     \<and> (\<forall>pfx. set (map replacement (with_prefix pfx (items res)))
                 = placeholder_text pfx ` {1..length (with_prefix pfx (items res))}
              \<and> distinct (map replacement (with_prefix pfx (items res))))
     \<and> distinct (map replacement (items res))"
proof -
  obtain res where res: "detectSensitiveInfo text = Some res"
    using detect_total by blast
  with detect_placeholders [OF res] show ?thesis by blast
qed

section \<open>Worked examples\<close>

text \<open>Two texts on which the theorems are instantiated: a card number, a social
  security number, a phone number and a date; and two email addresses around a social
  security number.\<close>

definition example_text :: jsstring where
  "example_text = js ''4111 1111 1111 1111, 123-45-6789, 415-555-0199, 14.03.1996''"

definition example_items :: "SensitiveItem list" where
  "example_items =
     [\<lparr>item_id = js ''credit_card-0-19'', item_type = credit_card,
        label = js ''Credit Card Number'', original = js ''4111 1111 1111 1111'',
        replacement = js ''[CREDIT_CARD_1]'', startIndex = 0, endIndex = 19, ignored = False\<rparr>,
      \<lparr>item_id = js ''ssn-21-32'', item_type = ssn,
        label = js ''Social Security Number'', original = js ''123-45-6789'',
        replacement = js ''[SSN_1]'', startIndex = 21, endIndex = 32, ignored = False\<rparr>,
      \<lparr>item_id = js ''phone-34-46'', item_type = phone,
        label = js ''Phone Number'', original = js ''415-555-0199'',
        replacement = js ''[PHONE_1]'', startIndex = 34, endIndex = 46, ignored = False\<rparr>,
      \<lparr>item_id = js ''date_of_birth-48-58'', item_type = date_of_birth,
        label = js ''Date of Birth'', original = js ''14.03.1996'',
        replacement = js ''[DOB_1]'', startIndex = 48, endIndex = 58, ignored = False\<rparr>]"

lemma detect_example:
  "detectSensitiveInfo example_text =
     Some \<lparr>hasSensitiveInfo = True, items = example_items,
            anonymizedText = js ''[CREDIT_CARD_1], [SSN_1], [PHONE_1], [DOB_1]''\<rparr>"
  by code_simp

lemma example_digits:
  "map (\<lambda>it. (item_type it, length (strip_non_digits (original it)))) example_items
     = [(credit_card, 16), (ssn, 9), (phone, 10), (date_of_birth, 8)]"
  by code_simp

lemma example_spans:
  "map (\<lambda>it. (startIndex it, endIndex it, original it = js_substring example_text (startIndex it) (endIndex it)))
     example_items = [(0, 19, True), (21, 32, True), (34, 46, True), (48, 58, True)]"
  by code_simp

theorem validator_bounds_witness:
  "\<exists>res. detectSensitiveInfo example_text = Some res
     \<and> map (\<lambda>it. (item_type it, length (strip_non_digits (original it)))) (items res)
         = [(credit_card, 16), (ssn, 9), (phone, 10), (date_of_birth, 8)]"
  using validator_bounds [of example_text] detect_example example_digits by auto

theorem items_disjoint_and_sorted_witness:
  "\<exists>res. detectSensitiveInfo example_text = Some res
     \<and> (1::nat) < length (items res) \<and> (2::nat) < length (items res) \<and> (1::nat) \<noteq> 2
     \<and> sorted (map startIndex (items res))
     \<and> \<not> rangesOverlap (startIndex (items res ! 1), endIndex (items res ! 1))
                        (startIndex (items res ! 2), endIndex (items res ! 2))"
proof -
  from items_disjoint_and_sorted [of example_text] obtain res where
    res: "detectSensitiveInfo example_text = Some res"
    and s: "sorted (map startIndex (items res))"
    and d: "\<forall>i < length (items res). \<forall>j < length (items res). i \<noteq> j \<longrightarrow>
           \<not> rangesOverlap (startIndex (items res ! i), endIndex (items res ! i))
                            (startIndex (items res ! j), endIndex (items res ! j))"
    by blast
  from res detect_example have "items res = example_items" by auto
  then have len: "length (items res) = 4"
    by (simp add: example_items_def)
  with d have "\<not> rangesOverlap (startIndex (items res ! 1), endIndex (items res ! 1))
                        (startIndex (items res ! 2), endIndex (items res ! 2))"
    by simp
  with res s len show ?thesis by simp
qed

theorem item_faithfulness_witness:
  "\<exists>res. detectSensitiveInfo example_text = Some res
     \<and> map (\<lambda>it. (startIndex it, endIndex it,
                   original it = js_substring example_text (startIndex it) (endIndex it)))
           (items res)
         = [(0, 19, True), (21, 32, True), (34, 46, True), (48, 58, True)]"
  using item_faithfulness [of example_text] detect_example example_spans by auto

section \<open>Splicing\<close>

text \<open>
  \<open>slice t a b\<close> is the text from \<open>a\<close> to \<open>b\<close>. \<open>chain pos n its\<close>: the items lie one after
  the other between \<open>pos\<close> and \<open>n\<close>, each with a non-empty range. \<open>render sh t pos its\<close> is
  the text from \<open>pos\<close> on in which every item of the chain stands as its placeholder,
  except the items that \<open>sh\<close> selects, which stand as the text of their range.
\<close>

definition slice :: "jsstring \<Rightarrow> nat \<Rightarrow> nat \<Rightarrow> jsstring" where
  "slice t a b = take (b - a) (drop a t)"

fun chain :: "nat \<Rightarrow> nat \<Rightarrow> SensitiveItem list \<Rightarrow> bool" where
  "chain pos n [] = (pos \<le> n)"
| "chain pos n (it # its) =
     (int pos \<le> startIndex it \<and> startIndex it < endIndex it \<and> chain (nat (endIndex it)) n its)"

fun render :: "(SensitiveItem \<Rightarrow> bool) \<Rightarrow> jsstring \<Rightarrow> nat \<Rightarrow> SensitiveItem list \<Rightarrow> jsstring" where
  "render sh t pos [] = drop pos t"
| "render sh t pos (it # its) =
     slice t pos (nat (startIndex it))
     @ (if sh it then slice t (nat (startIndex it)) (nat (endIndex it)) else replacement it)
     @ render sh t (nat (endIndex it)) its"

definition shift_item :: "int \<Rightarrow> SensitiveItem \<Rightarrow> SensitiveItem" where
  "shift_item d it = it\<lparr>startIndex := startIndex it - d, endIndex := endIndex it - d\<rparr>"

lemma chain_le: "chain pos n its \<Longrightarrow> pos \<le> n"
proof (induction its arbitrary: pos)
  case Nil
  then show ?case by simp
next
  case (Cons it its)
  then have "nat (endIndex it) \<le> n" "int pos \<le> startIndex it" "startIndex it < endIndex it"
    by simp_all
  then show ?case by linarith
qed

lemma take_slice: "a \<le> b \<Longrightarrow> take a t @ slice t a b = take b t"
  using take_add [of a "b - a" t] by (simp add: slice_def)

lemma slice_slice: "a \<le> b \<Longrightarrow> b \<le> c \<Longrightarrow> slice t a b @ slice t b c = slice t a c"
  using take_add [of "b - a" "c - b" "drop a t"] by (simp add: slice_def)

lemma slice_drop: "a \<le> length t \<Longrightarrow> slice t a (length t) = drop a t"
  by (simp add: slice_def)

lemma slice_take: "b \<le> c \<Longrightarrow> slice (take c t) a b = slice t a b"
  by (simp add: slice_def drop_take min_def)

lemma slice_of_drop: "e \<le> a \<Longrightarrow> slice (drop e t) (a - e) (b - e) = slice t a b"
  by (simp add: slice_def)

lemma splice_item_simple:
  assumes "0 \<le> startIndex it" "startIndex it \<le> endIndex it" "nat (endIndex it) \<le> length r"
  shows "splice_item r it = take (nat (startIndex it)) r @ replacement it @ drop (nat (endIndex it)) r"
proof -
  from assms have "js_substring r 0 (startIndex it) = take (nat (startIndex it)) r"
    by (simp add: js_substring_def Let_def min_def max_def)
  moreover from assms have "js_substring_from r (endIndex it) = drop (nat (endIndex it)) r"
    by (simp add: js_substring_from_def js_substring_def Let_def min_def max_def)
  ultimately show ?thesis by (simp add: splice_item_def)
qed

lemma apply_fold:
  "chain pos (length t) its \<Longrightarrow>
     foldr (\<lambda>it acc. splice_item acc it) (filter (\<lambda>it. \<not> ignored it) its) t
       = take pos t @ render ignored t pos its"
proof (induction its arbitrary: pos)
  case Nil
  then show ?case by simp
next
  case (Cons it its)
  let ?s = "nat (startIndex it)" and ?e = "nat (endIndex it)"
  from Cons.prems have c: "int pos \<le> startIndex it" "startIndex it < endIndex it"
    and tl: "chain ?e (length t) its" by simp_all
  from chain_le [OF tl] have e: "?e \<le> length t" .
  from c have ps: "pos \<le> ?s" and se: "?s \<le> ?e" by linarith+
  let ?R = "render ignored t ?e its"
  from Cons.IH [OF tl] have inner:
    "foldr (\<lambda>it acc. splice_item acc it) (filter (\<lambda>it. \<not> ignored it) its) t = take ?e t @ ?R" .
  show ?case
  proof (cases "ignored it")
    case True
    have "take pos t @ slice t pos ?s @ slice t ?s ?e = take ?e t"
      using take_slice [OF ps, of t] take_slice [OF se, of t] by (metis append.assoc)
    with True inner show ?thesis by simp
  next
    case False
    have len: "?e \<le> length (take ?e t @ ?R)" using e by simp
    have "splice_item (take ?e t @ ?R) it
            = take ?s (take ?e t @ ?R) @ replacement it @ drop ?e (take ?e t @ ?R)"
      using c by (intro splice_item_simple [OF _ _ len]) linarith+
    also have "take ?s (take ?e t @ ?R) = take ?s t" using se e by (simp add: min_def)
    also have "drop ?e (take ?e t @ ?R) = ?R" using e by simp
    finally have "splice_item (take ?e t @ ?R) it = take ?s t @ replacement it @ ?R" .
    with False inner take_slice [OF ps, of t] show ?thesis by simp
  qed
qed

lemma insort_key_last: "\<forall>y \<in> set ys. f y < f x \<Longrightarrow> insort_key f x ys = ys @ [x]"
  by (induction ys) auto

lemma sort_key_descending:
  "sorted_wrt (\<lambda>a b. f a < f b) xs \<Longrightarrow> sort_key (\<lambda>x. - f x) xs = rev xs"
  for f :: "'a \<Rightarrow> int"
proof (induction xs)
  case Nil
  then show ?case by simp
next
  case (Cons x xs)
  then have "sort_key (\<lambda>x. - f x) xs = rev xs" "\<forall>y \<in> set (rev xs). - f y < - f x" by simp_all
  with insort_key_last [of "rev xs" "\<lambda>x. - f x" x] show ?case by simp
qed

lemma chain_starts_ascending:
  "chain pos n its \<Longrightarrow>
     sorted_wrt (\<lambda>a b. startIndex a < startIndex b) its \<and> (\<forall>it \<in> set its. int pos \<le> startIndex it)"
proof (induction its arbitrary: pos)
  case Nil
  then show ?case by simp
next
  case (Cons it its)
  then have c: "int pos \<le> startIndex it" "startIndex it < endIndex it"
    and tl: "chain (nat (endIndex it)) n its" by simp_all
  from Cons.IH [OF tl] have
    "sorted_wrt (\<lambda>a b. startIndex a < startIndex b) its"
    "\<forall>x \<in> set its. int (nat (endIndex it)) \<le> startIndex x" by simp_all
  with c show ?case by auto
qed

lemma applyReplacements_chain:
  assumes "chain 0 (length t) its"
  shows "applyReplacements t its = render ignored t 0 its"
proof -
  from chain_starts_ascending [OF assms]
  have "sorted_wrt (\<lambda>a b. startIndex a < startIndex b) (filter (\<lambda>it. \<not> ignored it) its)"
    by (simp add: sorted_wrt_filter)
  from sort_key_descending [OF this]
  have "applyReplacements t its = foldl splice_item t (rev (filter (\<lambda>it. \<not> ignored it) its))"
    by (simp add: applyReplacements_def)
  also have "\<dots> = foldr (\<lambda>it acc. splice_item acc it) (filter (\<lambda>it. \<not> ignored it) its) t"
    by (simp add: foldl_conv_foldr)
  also have "\<dots> = render ignored t 0 its"
    using apply_fold [OF assms] by simp
  finally show ?thesis .
qed

lemma chain_append:
  "chain pos n (xs @ it # ys) \<Longrightarrow>
     chain pos (nat (startIndex it)) xs \<and> startIndex it < endIndex it
     \<and> chain (nat (endIndex it)) n ys"
proof (induction xs arbitrary: pos)
  case Nil
  then show ?case by auto
next
  case (Cons x xs)
  then show ?case by auto
qed

lemma render_append:
  "chain pos (length t) (xs @ it # ys) \<Longrightarrow>
     render sh t pos (xs @ it # ys)
       = render sh (take (nat (startIndex it)) t) pos xs
         @ (if sh it then slice t (nat (startIndex it)) (nat (endIndex it)) else replacement it)
         @ render sh t (nat (endIndex it)) ys"
proof (induction xs arbitrary: pos)
  case Nil
  then have "int pos \<le> startIndex it" by simp
  then have "pos \<le> nat (startIndex it)" by linarith
  then show ?case by (simp add: slice_def drop_take)
next
  case (Cons x xs)
  let ?s = "nat (startIndex it)"
  from Cons.prems have c: "int pos \<le> startIndex x" "startIndex x < endIndex x"
    and tl: "chain (nat (endIndex x)) (length t) (xs @ it # ys)" by simp_all
  from chain_append [OF tl] have "chain (nat (endIndex x)) ?s xs" by simp
  from chain_le [OF this] have ex: "nat (endIndex x) \<le> ?s" .
  with c have sx: "nat (startIndex x) \<le> ?s" by linarith
  from Cons.IH [OF tl] sx ex show ?case by (simp add: slice_take)
qed

lemma chain_shift:
  "chain pos n its \<Longrightarrow> e \<le> pos \<Longrightarrow> chain (pos - e) (n - e) (map (shift_item (int e)) its)"
proof (induction its arbitrary: pos)
  case Nil
  then show ?case by simp
next
  case (Cons it its)
  then have c: "int pos \<le> startIndex it" "startIndex it < endIndex it"
    and tl: "chain (nat (endIndex it)) n its" by simp_all
  from c Cons.prems(2) have le: "e \<le> nat (endIndex it)" by linarith
  have "nat (endIndex it - int e) = nat (endIndex it) - e" by linarith
  with Cons.IH [OF tl le] c Cons.prems(2) show ?case
    by (simp add: shift_item_def)
qed

lemma render_shift:
  assumes sh: "\<And>d it. sh (shift_item d it) = sh it"
  shows "chain pos n its \<Longrightarrow> e \<le> pos \<Longrightarrow>
     render sh t pos its = render sh (drop e t) (pos - e) (map (shift_item (int e)) its)"
proof (induction its arbitrary: pos)
  case Nil
  then show ?case by simp
next
  case (Cons it its)
  then have c: "int pos \<le> startIndex it" "startIndex it < endIndex it"
    and tl: "chain (nat (endIndex it)) n its" by simp_all
  from c Cons.prems(2) have le: "e \<le> nat (endIndex it)" "e \<le> nat (startIndex it)" by linarith+
  have n: "nat (endIndex it - int e) = nat (endIndex it) - e"
    "nat (startIndex it - int e) = nat (startIndex it) - e" by linarith+
  from Cons.IH [OF tl le(1)] Cons.prems(2) le show ?case
    by (simp add: shift_item_def n sh [unfolded shift_item_def] slice_of_drop)
qed

lemma chain_same_ranges:
  "map (\<lambda>it. (startIndex it, endIndex it)) xs = map (\<lambda>it. (startIndex it, endIndex it)) ys
     \<Longrightarrow> chain pos n xs = chain pos n ys"
proof (induction xs arbitrary: ys pos)
  case Nil
  then show ?case by simp
next
  case (Cons x xs)
  then obtain y ys' where "ys = y # ys'" by (cases ys) auto
  with Cons show ?case by auto
qed

lemma chain_from_sorted:
  "sorted (map startIndex its) \<Longrightarrow> sorted_wrt disjoint_items its
     \<Longrightarrow> \<forall>it \<in> set its. int pos \<le> startIndex it \<and> startIndex it < endIndex it \<and> endIndex it \<le> int n
     \<Longrightarrow> pos \<le> n \<Longrightarrow> chain pos n its"
proof (induction its arbitrary: pos)
  case Nil
  then show ?case by simp
next
  case (Cons it its)
  have "\<forall>x \<in> set its. int (nat (endIndex it)) \<le> startIndex x"
  proof
    fix x assume x: "x \<in> set its"
    with Cons.prems(1,2) have "startIndex it \<le> startIndex x" "disjoint_items it x" by auto
    moreover from x Cons.prems(3) have "startIndex x < endIndex x" by simp
    ultimately show "int (nat (endIndex it)) \<le> startIndex x"
      using Cons.prems(3) by (auto simp: disjoint_items_def item_range_def rangesOverlap_def)
  qed
  moreover from Cons.prems(3) have "endIndex it \<le> int n" by simp
  then have "nat (endIndex it) \<le> n" by linarith
  ultimately have "chain (nat (endIndex it)) n its"
    using Cons.prems by (intro Cons.IH) auto
  with Cons.prems(3) show ?case by simp
qed

lemma detect_chain:
  assumes res: "detectSensitiveInfo text = Some res"
  shows "chain 0 (length text) (items res)"
proof -
  from detect_items_faithful [OF res]
  have "\<forall>it \<in> set (items res). int 0 \<le> startIndex it \<and> startIndex it < endIndex it
          \<and> endIndex it \<le> int (length text)"
    by (simp add: item_faithful_def)
  with detect_sorted_disjoint [OF res] show ?thesis
    by (intro chain_from_sorted) simp_all
qed

lemma obj_assign_keys: "fst ` set (obj_assign m k v) \<subseteq> insert k (fst ` set m)"
  by (auto simp: obj_assign_def dom_update)

lemma buildReplacementMapping_fold_keys:
  "fst ` set (foldl (\<lambda>mapping item.
              if \<not> ignored item then obj_assign mapping (replacement item) (original item)
              else mapping) m its)
     \<subseteq> fst ` set m \<union> replacement ` {it \<in> set its. \<not> ignored it}"
proof (induction its arbitrary: m)
  case Nil
  then show ?case by simp
next
  case (Cons it its)
  show ?case
  proof (cases "ignored it")
    case True
    with Cons [of m] show ?thesis by auto
  next
    case False
    let ?m = "obj_assign m (replacement it) (original it)"
    from Cons [of ?m] obj_assign_keys [of m "replacement it" "original it"]
    have "fst ` set (foldl (\<lambda>mapping item.
              if \<not> ignored item then obj_assign mapping (replacement item) (original item)
              else mapping) ?m its)
          \<subseteq> insert (replacement it) (fst ` set m) \<union> replacement ` {it \<in> set its. \<not> ignored it}"
      by blast
    also have "\<dots> \<subseteq> fst ` set m \<union> replacement ` {x \<in> set (it # its). \<not> ignored x}"
      using False by auto
    finally show ?thesis using False by simp
  qed
qed

lemma buildReplacementMapping_keys:
  "fst ` set (buildReplacementMapping its) \<subseteq> replacement ` {it \<in> set its. \<not> ignored it}"
  using buildReplacementMapping_fold_keys [of "[]" its]
  by (simp add: buildReplacementMapping_def)

lemma applyReplacements_all_ignored:
  "\<forall>it \<in> set its. ignored it \<Longrightarrow> applyReplacements t its = t"
proof -
  assume "\<forall>it \<in> set its. ignored it"
  then have "filter (\<lambda>it. \<not> ignored it) its = []" by (simp add: filter_empty_conv)
  then show ?thesis by (simp add: applyReplacements_def)
qed

section \<open>Ignored items\<close>

text \<open>
  Claim C3. Take the items of one detection pass and set the \<open>ignored\<close> flag of the item
  at index \<open>i\<close>. Then the output of \<open>applyReplacements\<close> is the redaction of the text
  before the item, by the items before it, followed by the item's original substring,
  followed by the redaction of the text after the item, by the items after it (their
  offsets counted from the end of the item); and the item's placeholder is no key of the
  mapping that \<open>buildReplacementMapping\<close> builds. With an item list that is empty or
  ignored throughout, \<open>applyReplacements\<close> returns the text unchanged.
\<close>

theorem ignored_item_untouched:
  assumes res: "detectSensitiveInfo text = Some res" and i: "i < length (items res)"
  shows "applyReplacements text ((items res)[i := (items res ! i)\<lparr>ignored := True\<rparr>])
           = applyReplacements (take (nat (startIndex (items res ! i))) text) (take i (items res))
             @ original (items res ! i)
             @ applyReplacements (drop (nat (endIndex (items res ! i))) text)
                 (map (shift_item (endIndex (items res ! i))) (drop (Suc i) (items res)))
         \<and> replacement (items res ! i)
             \<notin> fst ` set (buildReplacementMapping ((items res)[i := (items res ! i)\<lparr>ignored := True\<rparr>]))
         \<and> (\<forall>t its. (\<forall>it \<in> set its. ignored it) \<longrightarrow> applyReplacements t its = t)"
proof -
  let ?its = "items res" and ?it = "items res ! i"
  let ?xs = "take i ?its" and ?ys = "drop (Suc i) ?its"
  let ?it' = "?it\<lparr>ignored := True\<rparr>"
  let ?s = "nat (startIndex ?it)" and ?e = "nat (endIndex ?it)"
  let ?n = "length text"
  have split: "?its = ?xs @ ?it # ?ys" using i by (simp add: id_take_nth_drop)
  have upd: "?its[i := ?it'] = ?xs @ ?it' # ?ys" using i by (simp add: upd_conv_take_nth_drop)
  from detect_chain [OF res] split have ch: "chain 0 ?n (?xs @ ?it # ?ys)" by simp
  have ch': "chain 0 ?n (?xs @ ?it' # ?ys)"
    using ch chain_same_ranges [of "?xs @ ?it' # ?ys" "?xs @ ?it # ?ys" 0 ?n] by simp
  from chain_append [OF ch] have pre: "chain 0 ?s ?xs" and se: "startIndex ?it < endIndex ?it"
    and post: "chain ?e ?n ?ys" by simp_all
  from chain_le [OF post] have e: "?e \<le> ?n" .
  from detect_items_faithful [OF res] i have f: "item_faithful text ?it" by simp
  then have s0: "0 \<le> startIndex ?it" by (simp add: item_faithful_def)
  with se e have s: "?s \<le> ?n" "0 \<le> startIndex ?it" by linarith+
  from f s se e have orig: "original ?it = slice text ?s ?e"
    using js_substring_slice [of ?s ?e "text"] by (simp add: item_faithful_def slice_def)
  have a: "applyReplacements text (?xs @ ?it' # ?ys)
             = render ignored (take ?s text) 0 ?xs @ slice text ?s ?e @ render ignored text ?e ?ys"
    using applyReplacements_chain [OF ch'] render_append [OF ch', of ignored] by simp
  have b: "applyReplacements (take ?s text) ?xs = render ignored (take ?s text) 0 ?xs"
    using pre s by (intro applyReplacements_chain) (simp add: min_def)
  have sh: "\<And>d it. ignored (shift_item d it) = ignored it" by (simp add: shift_item_def)
  have "chain (?e - ?e) (?n - ?e) (map (shift_item (int ?e)) ?ys)"
    by (rule chain_shift [OF post order_refl])
  then have "chain 0 (length (drop ?e text)) (map (shift_item (int ?e)) ?ys)" by simp
  from applyReplacements_chain [OF this]
  have c: "applyReplacements (drop ?e text) (map (shift_item (int ?e)) ?ys)
             = render ignored text ?e ?ys"
    using render_shift [of ignored ?e ?n ?ys ?e "text", OF sh post order_refl] by simp
  have ie: "int ?e = endIndex ?it" using se s by linarith
  have first: "applyReplacements text (?its[i := ?it'])
           = applyReplacements (take ?s text) ?xs @ original ?it
             @ applyReplacements (drop ?e text) (map (shift_item (endIndex ?it)) ?ys)"
    using a b c orig upd ie by simp
  have "distinct (map replacement ?its)" using detect_placeholders [OF res] by simp
  with split have "distinct (map replacement (?xs @ ?it # ?ys))" by simp
  then have "replacement ?it \<notin> replacement ` (set ?xs \<union> set ?ys)" by auto
  moreover have "{x \<in> set (?xs @ ?it' # ?ys). \<not> ignored x} \<subseteq> set ?xs \<union> set ?ys" by auto
  ultimately have "replacement ?it \<notin> replacement ` {x \<in> set (?xs @ ?it' # ?ys). \<not> ignored x}"
    by blast
  with buildReplacementMapping_keys [of "?xs @ ?it' # ?ys"] upd
  have second: "replacement ?it \<notin> fst ` set (buildReplacementMapping (?its[i := ?it']))"
    by auto
  have third: "\<forall>t its. (\<forall>it \<in> set its. ignored it) \<longrightarrow> applyReplacements t its = t"
    using applyReplacements_all_ignored by blast
  from first second third show ?thesis by blast
qed


definition example2_text :: jsstring where
  "example2_text = js ''a@b.co, 123-45-6789, c@d.eu''"

definition example2_items :: "SensitiveItem list" where
  "example2_items =
     [\<lparr>item_id = js ''email-0-6'', item_type = email,
        label = js ''Email Address'', original = js ''a@b.co'',
        replacement = js ''[EMAIL_1]'', startIndex = 0, endIndex = 6, ignored = False\<rparr>,
      \<lparr>item_id = js ''ssn-8-19'', item_type = ssn,
        label = js ''Social Security Number'', original = js ''123-45-6789'',
        replacement = js ''[SSN_1]'', startIndex = 8, endIndex = 19, ignored = False\<rparr>,
      \<lparr>item_id = js ''email-21-27'', item_type = email,
        label = js ''Email Address'', original = js ''c@d.eu'',
        replacement = js ''[EMAIL_2]'', startIndex = 21, endIndex = 27, ignored = False\<rparr>]"

lemma detect_example2:
  "detectSensitiveInfo example2_text =
     Some \<lparr>hasSensitiveInfo = True, items = example2_items,
            anonymizedText = js ''[EMAIL_1], [SSN_1], [EMAIL_2]''\<rparr>"
  by code_simp

lemma example2_pieces:
  "applyReplacements (take (nat (startIndex (example2_items ! 1))) example2_text)
       (take 1 example2_items)
     @ original (example2_items ! 1)
     @ applyReplacements (drop (nat (endIndex (example2_items ! 1))) example2_text)
         (map (shift_item (endIndex (example2_items ! 1))) (drop (Suc 1) example2_items))
   = js ''[EMAIL_1], 123-45-6789, [EMAIL_2]''"
  by code_simp

theorem ignored_item_untouched_witness:
  "\<exists>res. detectSensitiveInfo example2_text = Some res \<and> 1 < length (items res)
     \<and> applyReplacements example2_text ((items res)[1 := (items res ! 1)\<lparr>ignored := True\<rparr>])
         = js ''[EMAIL_1], 123-45-6789, [EMAIL_2]''
     \<and> replacement (items res ! 1)
         \<notin> fst ` set (buildReplacementMapping ((items res)[1 := (items res ! 1)\<lparr>ignored := True\<rparr>]))
     \<and> list_all ignored [(items res ! 1)\<lparr>ignored := True\<rparr>]
     \<and> applyReplacements example2_text [(items res ! 1)\<lparr>ignored := True\<rparr>] = example2_text"
proof -
  let ?res = "\<lparr>hasSensitiveInfo = True, items = example2_items,
            anonymizedText = js ''[EMAIL_1], [SSN_1], [EMAIL_2]''\<rparr>"
  have len: "1 < length (items ?res)" by (simp add: example2_items_def)
  note inst = ignored_item_untouched [OF detect_example2 len]
  from inst have a: "applyReplacements example2_text ((items ?res)[1 := (items ?res ! 1)\<lparr>ignored := True\<rparr>])
         = js ''[EMAIL_1], 123-45-6789, [EMAIL_2]''"
    using example2_pieces by simp
  from inst have b: "replacement (items ?res ! 1)
         \<notin> fst ` set (buildReplacementMapping ((items ?res)[1 := (items ?res ! 1)\<lparr>ignored := True\<rparr>]))"
    by blast
  from inst have "\<forall>t its. (\<forall>it \<in> set its. ignored it) \<longrightarrow> applyReplacements t its = t" by blast
  then have c: "applyReplacements example2_text [(items ?res ! 1)\<lparr>ignored := True\<rparr>] = example2_text"
    by simp
  from detect_example2 len a b c show ?thesis by (intro exI [of _ ?res]) simp
qed

section \<open>Restoring placeholders\<close>

text \<open>A replacement template without \<open>$\<close> is inserted as it is.\<close>

lemma GetSubstitution_plain: "36 \<notin> set tpl \<Longrightarrow> GetSubstitution m b a tpl = tpl"
  by (induction m b a tpl rule: GetSubstitution.induct) auto

lemma replaceAll_scan_Nil: "k \<noteq> [] \<Longrightarrow> replaceAll_scan k v b [] = []"
  by (simp add: replaceAll_scan.simps [of k v b "[]"])

lemma replaceAll_scan_hit:
  "k \<noteq> [] \<Longrightarrow> 36 \<notin> set v \<Longrightarrow> replaceAll_scan k v b (k @ s) = v @ replaceAll_scan k v (b @ k) s"
  by (simp add: replaceAll_scan.simps [of k v b "k @ s"] GetSubstitution_plain)

lemma replaceAll_scan_miss:
  "\<not> prefix k (c # s) \<Longrightarrow> replaceAll_scan k v b (c # s) = c # replaceAll_scan k v (b @ [c]) s"
  by (simp add: replaceAll_scan.simps [of k v b "c # s"])

lemma replaceAll_scan_skip:
  "\<forall>i < length a. \<not> prefix k (drop i (a @ s)) \<Longrightarrow>
     replaceAll_scan k v b (a @ s) = a @ replaceAll_scan k v (b @ a) s"
proof (induction a arbitrary: b)
  case Nil
  then show ?case by simp
next
  case (Cons c a)
  from Cons.prems have 0: "\<not> prefix k (c # a @ s)" by force
  from Cons.prems have "\<forall>i < length a. \<not> prefix k (drop i (a @ s))" by force
  from Cons.IH [OF this, of "b @ [c]"] replaceAll_scan_miss [OF 0, of v b]
  show ?case by simp
qed

lemma replaceAll_scan_absent:
  assumes "\<not> sublist k x" "k \<noteq> []"
  shows "replaceAll_scan k v b x = x"
proof -
  have "\<forall>i < length x. \<not> prefix k (drop i (x @ []))"
  proof (intro allI impI notI)
    fix i assume "prefix k (drop i (x @ []))"
    then obtain r where "drop i x = k @ r" by (auto simp: prefix_def)
    then have "x = take i x @ k @ r" by (metis append_take_drop_id)
    with assms(1) show False by (auto simp: sublist_def)
  qed
  from replaceAll_scan_skip [OF this, of v b] assms(2) show ?thesis
    by (simp add: replaceAll_scan_Nil)
qed

text \<open>A placeholder in the shape that detection generates: a bracketed text with no
  bracket inside (91 and 93 are the brackets).\<close>

definition is_placeholder :: "jsstring \<Rightarrow> bool" where
  "is_placeholder p =
     (case p of
        [] \<Rightarrow> False
      | c # r \<Rightarrow> c = 91 \<and> r \<noteq> [] \<and> last r = 93
                 \<and> 91 \<notin> set (butlast r) \<and> 93 \<notin> set (butlast r))"

lemma is_placeholder_iff:
  "is_placeholder p \<longleftrightarrow> (\<exists>body. p = 91 # body @ [93] \<and> 91 \<notin> set body \<and> 93 \<notin> set body)"
proof
  assume "is_placeholder p"
  then obtain r where r: "p = 91 # r" "r \<noteq> []" "last r = 93"
    "91 \<notin> set (butlast r)" "93 \<notin> set (butlast r)"
    by (auto simp: is_placeholder_def split: list.splits)
  from r(2,3) have "r = butlast r @ [93]" by (metis append_butlast_last_id)
  with r show "\<exists>body. p = 91 # body @ [93] \<and> 91 \<notin> set body \<and> 93 \<notin> set body" by metis
next
  assume "\<exists>body. p = 91 # body @ [93] \<and> 91 \<notin> set body \<and> 93 \<notin> set body"
  then show "is_placeholder p" by (auto simp: is_placeholder_def)
qed

lemma is_placeholder_hd: "is_placeholder k \<Longrightarrow> k \<noteq> [] \<and> hd k = 91 \<and> 91 \<notin> set (tl k)"
  by (auto simp: is_placeholder_iff)

lemma placeholder_prefix_eq:
  assumes "is_placeholder k" "is_placeholder p" "prefix k (p @ s)"
  shows "k = p"
proof -
  from assms(1) obtain kb where k: "k = 91 # kb @ [93]" "93 \<notin> set kb"
    by (auto simp: is_placeholder_iff)
  from assms(2) obtain pb where p: "p = 91 # pb @ [93]" "93 \<notin> set pb"
    by (auto simp: is_placeholder_iff)
  from assms(3) k p obtain r where "pb @ 93 # s = kb @ 93 # r"
    by (auto simp: prefix_def)
  from split_at_first [OF this p(2) k(2)] k p show ?thesis by simp
qed

lemma placeholder_not_across:
  assumes k: "is_placeholder k" and x: "x \<noteq> []" and T: "T = [] \<or> hd T = 91"
    and pre: "prefix k (x @ T)"
  shows "prefix k x"
proof (rule ccontr)
  assume n: "\<not> prefix k x"
  with pre obtain us where us: "k = x @ us" "prefix us T"
    by (auto simp: prefix_append)
  with n have "us \<noteq> []" by auto
  with us(2) T have "hd us = 91" by (cases us; cases T) auto
  with \<open>us \<noteq> []\<close> have "91 \<in> set us" by (cases us) auto
  with us(1) x have "91 \<in> set (tl k)" by (cases x) auto
  with is_placeholder_hd [OF k] show False by simp
qed

lemma placeholder_not_inside:
  assumes k: "is_placeholder k" and p: "is_placeholder p" and i: "0 < i" "i < length p"
  shows "\<not> prefix k (drop i (p @ s))"
proof
  assume pre: "prefix k (drop i (p @ s))"
  from i have d: "drop i (p @ s) = (p ! i) # drop (Suc i) (p @ s)"
    by (metis Cons_nth_drop_Suc length_append nth_append trans_less_add1)
  from is_placeholder_hd [OF k] obtain k' where "k = 91 # k'" by (cases k) auto
  with pre d have "p ! i = 91" by simp
  moreover from i have "p ! i \<in> set (tl p)"
    by (cases p) (auto simp: nth_Cons')
  ultimately show False using is_placeholder_hd [OF p] by simp
qed

lemma slice_prefix_drop: "prefix (slice t a b) (drop a t)"
  by (simp add: slice_def take_is_prefix)

lemma drop_as_slice: "a \<le> b \<Longrightarrow> b \<le> length t \<Longrightarrow> drop a t = slice t a b @ drop b t"
  using slice_slice [of a b "length t" t] by (simp add: slice_drop)

lemma render_literal_part:
  "chain pos (length t) its \<Longrightarrow> \<forall>it \<in> set its. is_placeholder (replacement it) \<Longrightarrow>
     \<exists>L T. render sh t pos its = L @ T \<and> prefix L (drop pos t) \<and> (T = [] \<or> hd T = 91)"
proof (induction its arbitrary: pos)
  case Nil
  show ?case by (intro exI [of _ "drop pos t"] exI [of _ "[]"]) simp
next
  case (Cons it its)
  let ?s = "nat (startIndex it)" and ?e = "nat (endIndex it)"
  from Cons.prems have c: "int pos \<le> startIndex it" "startIndex it < endIndex it"
    and tl: "chain ?e (length t) its" by simp_all
  from chain_le [OF tl] have e: "?e \<le> length t" .
  from c have ps: "pos \<le> ?s" and se: "?s \<le> ?e" by linarith+
  show ?case
  proof (cases "sh it")
    case False
    from Cons.prems(2) have "hd (replacement it @ render sh t ?e its) = 91"
      using is_placeholder_hd [of "replacement it"] by simp
    with False show ?thesis
      by (intro exI [of _ "slice t pos ?s"] exI [of _ "replacement it @ render sh t ?e its"])
         (simp add: slice_prefix_drop)
  next
    case True
    from Cons.IH [OF tl] Cons.prems(2) obtain L T where
      LT: "render sh t ?e its = L @ T" "prefix L (drop ?e t)" "T = [] \<or> hd T = 91" by auto
    have "drop pos t = slice t pos ?e @ drop ?e t"
      using ps se e by (intro drop_as_slice) simp_all
    with LT(2) have "prefix (slice t pos ?e @ L) (drop pos t)" by simp
    moreover have "render sh t pos (it # its) = (slice t pos ?e @ L) @ T"
      using True LT(1) slice_slice [OF ps se, of t] by simp
    ultimately show ?thesis using LT(3) by blast
  qed
qed

lemma sublist_of_prefix: "sublist k x \<Longrightarrow> prefix x y \<Longrightarrow> sublist k y"
  by (auto simp: sublist_def prefix_def) (metis append.assoc)

lemma no_occurrence_in_literal:
  assumes k: "is_placeholder k" and pre: "prefix (a @ L) u" and T: "T = [] \<or> hd T = 91"
    and no: "\<not> sublist k u"
  shows "\<forall>i < length a. \<not> prefix k (drop i (a @ L @ T))"
proof (intro allI impI notI)
  fix i assume i: "i < length a" and p: "prefix k (drop i (a @ L @ T))"
  from i have "drop i (a @ L @ T) = (drop i a @ L) @ T" by simp
  with p have "prefix k ((drop i a @ L) @ T)" by simp
  moreover from i have "drop i a @ L \<noteq> []" by simp
  ultimately have "prefix k (drop i a @ L)"
    using placeholder_not_across [OF k _ T] by blast
  then obtain r where "drop i a @ L = k @ r" by (auto simp: prefix_def)
  then have "a @ L = take i a @ k @ r" by (metis append.assoc append_take_drop_id)
  then have "sublist k (a @ L)" by (auto simp: sublist_def)
  from sublist_of_prefix [OF this pre] no show False by simp
qed

lemma sublist_drop_le: "sublist k (drop b t) \<Longrightarrow> sublist k (drop a t)" if "a \<le> b"
proof -
  assume "sublist k (drop b t)"
  moreover have "drop b t = drop (b - a) (drop a t)" using that by simp
  ultimately show ?thesis
    by (metis sublist_drop sublist_order.order.trans)
qed

lemma restore_step:
  assumes k: "is_placeholder k" and v: "36 \<notin> set v"
  shows "chain pos (length t) its \<Longrightarrow> \<forall>it \<in> set its. is_placeholder (replacement it)
     \<Longrightarrow> \<forall>it \<in> set its. replacement it = k \<longrightarrow> slice t (nat (startIndex it)) (nat (endIndex it)) = v
     \<Longrightarrow> \<not> sublist k (drop pos t)
     \<Longrightarrow> replaceAll_scan k v b (render sh t pos its)
           = render (\<lambda>it. sh it \<or> replacement it = k) t pos its"
proof (induction its arbitrary: pos b)
  case Nil
  from is_placeholder_hd [OF k] Nil.prems(4) show ?case
    by (simp add: replaceAll_scan_absent)
next
  case (Cons it its)
  let ?s = "nat (startIndex it)" and ?e = "nat (endIndex it)"
  let ?sh' = "\<lambda>it. sh it \<or> replacement it = k"
  let ?G = "slice t pos ?s" and ?R = "render sh t ?e its"
  from Cons.prems(1) have c: "int pos \<le> startIndex it" "startIndex it < endIndex it"
    and tl: "chain ?e (length t) its" by simp_all
  from chain_le [OF tl] have e: "?e \<le> length t" .
  from c have ps: "pos \<le> ?s" and se: "?s \<le> ?e" by linarith+
  from ps se have pe: "pos \<le> ?e" by simp
  from Cons.prems(2) have p: "is_placeholder (replacement it)"
    and ptl: "\<forall>it \<in> set its. is_placeholder (replacement it)" by simp_all
  from Cons.prems(3) have vtl:
    "\<forall>it \<in> set its. replacement it = k \<longrightarrow> slice t (nat (startIndex it)) (nat (endIndex it)) = v"
    by simp
  from Cons.prems(4) sublist_drop_le [OF pe, of k t] have notl: "\<not> sublist k (drop ?e t)" by blast
  note IH = Cons.IH [OF tl ptl vtl notl]
  from is_placeholder_hd [OF k] have kne: "k \<noteq> []" by simp
  show ?case
  proof (cases "sh it")
    case False
    let ?p = "replacement it"
    have hdT: "?p @ ?R = [] \<or> hd (?p @ ?R) = 91"
      using is_placeholder_hd [OF p] by simp
    have "prefix (?G @ []) (drop pos t)" by (simp add: slice_prefix_drop)
    from no_occurrence_in_literal [OF k this hdT Cons.prems(4)]
    have "\<forall>i < length ?G. \<not> prefix k (drop i (?G @ ?p @ ?R))" by simp
    from replaceAll_scan_skip [OF this]
    have 1: "replaceAll_scan k v b (?G @ ?p @ ?R) = ?G @ replaceAll_scan k v (b @ ?G) (?p @ ?R)" .
    show ?thesis
    proof (cases "?p = k")
      case True
      with Cons.prems(3) have "slice t ?s ?e = v" by simp
      with True False 1 replaceAll_scan_hit [OF kne v, of "b @ ?G" ?R] IH [of "(b @ ?G) @ k"]
      show ?thesis by simp
    next
      case ne: False
      have "\<forall>i < length ?p. \<not> prefix k (drop i (?p @ ?R))"
      proof (intro allI impI)
        fix i assume i: "i < length ?p"
        show "\<not> prefix k (drop i (?p @ ?R))"
        proof (cases "i = 0")
          case True
          with placeholder_prefix_eq [OF k p, of ?R] ne show ?thesis by auto
        next
          case False
          with placeholder_not_inside [OF k p _ i, of ?R] show ?thesis by simp
        qed
      qed
      from replaceAll_scan_skip [OF this, of v "b @ ?G"] 1 False ne IH [of "(b @ ?G) @ ?p"]
      show ?thesis by simp
    qed
  next
    case True
    let ?O = "slice t ?s ?e"
    from render_literal_part [OF tl ptl, of sh] obtain L T where
      LT: "?R = L @ T" "prefix L (drop ?e t)" "T = [] \<or> hd T = 91" by blast
    have GO: "?G @ ?O = slice t pos ?e" using slice_slice [OF ps se, of t] by simp
    have "drop pos t = slice t pos ?e @ drop ?e t"
      using pe e by (intro drop_as_slice) simp_all
    with LT(2) GO have "prefix ((?G @ ?O) @ L) (drop pos t)" by simp
    from no_occurrence_in_literal [OF k this LT(3) Cons.prems(4)] LT(1)
    have "\<forall>i < length (?G @ ?O). \<not> prefix k (drop i ((?G @ ?O) @ ?R))" by simp
    from replaceAll_scan_skip [OF this, of v b] True IH [of "b @ ?G @ ?O"]
    show ?thesis by simp
  qed
qed

lemma render_cong:
  "\<forall>it \<in> set its. sh it = sh' it \<Longrightarrow> render sh t pos its = render sh' t pos its"
  by (induction its arbitrary: pos) auto

lemma render_all_shown:
  "chain pos (length t) its \<Longrightarrow> \<forall>it \<in> set its. sh it \<Longrightarrow> render sh t pos its = drop pos t"
proof (induction its arbitrary: pos)
  case Nil
  then show ?case by simp
next
  case (Cons it its)
  let ?s = "nat (startIndex it)" and ?e = "nat (endIndex it)"
  from Cons.prems have c: "int pos \<le> startIndex it" "startIndex it < endIndex it"
    and tl: "chain ?e (length t) its" by simp_all
  from chain_le [OF tl] have e: "?e \<le> length t" .
  from c have ps: "pos \<le> ?s" and se: "?s \<le> ?e" by linarith+
  from Cons.IH [OF tl] Cons.prems(2) have "render sh t ?e its = drop ?e t" by simp
  with Cons.prems(2) slice_slice [OF ps se, of t] drop_as_slice [of pos ?e t] ps se e
  show ?case by simp
qed

lemma update_fresh: "k \<notin> fst ` set m \<Longrightarrow> AList.update k v m = m @ [(k, v)]"
  by (induction m) auto

lemma placeholder_not_proto: "is_placeholder k \<Longrightarrow> k \<noteq> js ''__proto__''"
  by (auto simp: is_placeholder_iff js_def)

lemma placeholder_not_index: "is_placeholder k \<Longrightarrow> array_index k = None"
  by (auto simp: is_placeholder_iff array_index_def is_digit_def)

lemma buildReplacementMapping_fold_plain:
  "\<forall>it \<in> set its. \<not> ignored it \<and> is_placeholder (replacement it)
     \<Longrightarrow> distinct (map fst m @ map replacement its)
     \<Longrightarrow> foldl (\<lambda>mapping item.
              if \<not> ignored item then obj_assign mapping (replacement item) (original item)
              else mapping) m its
         = m @ map (\<lambda>it. (replacement it, original it)) its"
proof (induction its arbitrary: m)
  case Nil
  then show ?case by simp
next
  case (Cons it its)
  from Cons.prems(2) have fresh: "replacement it \<notin> fst ` set m" by auto
  from Cons.prems(1) have "obj_assign m (replacement it) (original it)
          = m @ [(replacement it, original it)]"
    using placeholder_not_proto [of "replacement it"] update_fresh [OF fresh]
    by (simp add: obj_assign_def)
  moreover from Cons.prems(2)
  have "distinct (map fst (m @ [(replacement it, original it)]) @ map replacement its)" by auto
  ultimately show ?case using Cons.IH [of "m @ [(replacement it, original it)]"] Cons.prems(1)
    by simp
qed

lemma buildReplacementMapping_plain:
  assumes "\<forall>it \<in> set its. \<not> ignored it \<and> is_placeholder (replacement it)"
    and "distinct (map replacement its)"
  shows "buildReplacementMapping its = map (\<lambda>it. (replacement it, original it)) its"
  using buildReplacementMapping_fold_plain [of its "[]"] assms
  by (simp add: buildReplacementMapping_def)

lemma Object_entries_plain:
  "\<forall>(k, v) \<in> set m. array_index k = None \<Longrightarrow> Object_entries m = m"
proof -
  assume a: "\<forall>(k, v) \<in> set m. array_index k = None"
  then have "filter (\<lambda>(k, v). array_index k \<noteq> None) m = []"
    by (auto simp: filter_empty_conv)
  moreover from a have "filter (\<lambda>(k, v). array_index k = None) m = m"
    by (auto simp: filter_id_conv)
  ultimately show ?thesis by (simp add: Object_entries_def)
qed

lemma restore_fold:
  assumes ch: "chain 0 (length t) xs"
    and ok: "\<forall>it \<in> set xs. is_placeholder (replacement it)
               \<and> original it = slice t (nat (startIndex it)) (nat (endIndex it))
               \<and> 36 \<notin> set (original it) \<and> \<not> sublist (replacement it) t"
    and d: "distinct (map replacement xs)"
  shows "set ys \<subseteq> set xs \<Longrightarrow>
     foldl (\<lambda>result (placeholder, orig). js_replaceAll result placeholder orig)
       (render sh t 0 xs) (map (\<lambda>it. (replacement it, original it)) ys)
     = render (\<lambda>it. sh it \<or> replacement it \<in> replacement ` set ys) t 0 xs"
proof (induction ys arbitrary: sh)
  case Nil
  then show ?case by simp
next
  case (Cons y ys)
  let ?k = "replacement y" and ?v = "original y"
  from Cons.prems have y: "y \<in> set xs" and ys: "set ys \<subseteq> set xs" by simp_all
  from ok y have oky: "is_placeholder ?k
               \<and> original y = slice t (nat (startIndex y)) (nat (endIndex y))
               \<and> 36 \<notin> set ?v \<and> \<not> sublist ?k t" by blast
  then have k: "is_placeholder ?k" and v: "36 \<notin> set ?v" and no0: "\<not> sublist ?k t"
    by blast+
  from no0 have no: "\<not> sublist ?k (drop 0 t)" by simp
  from ok have pl: "\<forall>it \<in> set xs. is_placeholder (replacement it)" by simp
  have val: "\<forall>it \<in> set xs. replacement it = ?k \<longrightarrow>
               slice t (nat (startIndex it)) (nat (endIndex it)) = ?v"
  proof (intro ballI impI)
    fix it assume it: "it \<in> set xs" and eq: "replacement it = ?k"
    from d have "inj_on replacement (set xs)" by (simp add: distinct_map)
    with it y eq have "it = y" by (auto dest: inj_onD)
    with oky show "slice t (nat (startIndex it)) (nat (endIndex it)) = ?v" by simp
  qed
  from restore_step [OF k v ch pl val no, of "[]" sh]
  have 1: "js_replaceAll (render sh t 0 xs) ?k ?v
             = render (\<lambda>it. sh it \<or> replacement it = ?k) t 0 xs"
    by (simp add: js_replaceAll_def)
  have 2: "render (\<lambda>it. (sh it \<or> replacement it = ?k) \<or> replacement it \<in> replacement ` set ys) t 0 xs
             = render (\<lambda>it. sh it \<or> replacement it \<in> replacement ` set (y # ys)) t 0 xs"
    by (rule render_cong) auto
  from Cons.IH [OF ys, of "\<lambda>it. sh it \<or> replacement it = ?k"] 1 2 show ?case by simp
qed

section \<open>Round trip\<close>

lemma sorted_rev_neg:
  "sorted (map f zs) \<Longrightarrow> sorted (rev (map (\<lambda>x. - f x) zs))" for f :: "'a \<Rightarrow> int"
  by (induction zs) (auto simp: sorted_append)

lemma filter_eq_of_mset:
  assumes "mset ys = mset xs"
  shows "filter (\<lambda>x. k = x) ys = filter (\<lambda>x. k = x) xs"
proof -
  have "length (filter (\<lambda>x. k = x) ys) = length (filter (\<lambda>x. k = x) xs)"
    using assms by (metis mset_filter size_mset)
  then show ?thesis
    by (metis replicate_length_filter)
qed

lemma sort_key_descending_filter:
  fixes f :: "'a \<Rightarrow> int"
  assumes inj: "inj_on f (set xs)"
  shows "sort_key (\<lambda>x. - f x) (filter P xs) = rev (filter P (sort_key f xs))"
proof (rule properties_for_sort_key)
  show "mset (rev (filter P (sort_key f xs))) = mset (filter P xs)" by simp
next
  have "sorted (map f (filter P (sort_key f xs)))" by (simp add: sorted_filter)
  from sorted_rev_neg [OF this]
  show "sorted (map (\<lambda>x. - f x) (rev (filter P (sort_key f xs))))" by (simp add: rev_map)
next
  fix k
  assume "k \<in> set (rev (filter P (sort_key f xs)))"
  then have k: "k \<in> set xs" by simp
  have m: "mset (rev (filter P (sort_key f xs))) = mset (filter P xs)" by simp
  have a: "filter (\<lambda>x. - f k = - f x) (rev (filter P (sort_key f xs)))
             = filter (\<lambda>x. k = x) (rev (filter P (sort_key f xs)))"
    using inj k by (intro filter_cong refl) (auto dest: inj_onD)
  have b: "filter (\<lambda>x. - f k = - f x) (filter P xs) = filter (\<lambda>x. k = x) (filter P xs)"
    using inj k by (intro filter_cong refl) (auto dest: inj_onD)
  from a b filter_eq_of_mset [OF m, of k]
  show "filter (\<lambda>x. - f k = - f x) (rev (filter P (sort_key f xs)))
          = filter (\<lambda>x. - f k = - f x) (filter P xs)" by simp
qed

lemma applyReplacements_sorted:
  assumes "inj_on startIndex (set its)"
  shows "applyReplacements t its = applyReplacements t (sort_key startIndex its)"
proof -
  have "inj_on startIndex (set (sort_key startIndex its))" using assms by simp
  from sort_key_descending_filter [OF this, of "\<lambda>it. \<not> ignored it"]
    sort_key_descending_filter [OF assms, of "\<lambda>it. \<not> ignored it"]
  show ?thesis by (simp add: applyReplacements_def sort_key_id_if_sorted)
qed

text \<open>
  Claim C1, as the code has it. Take a text and an item list in which no item is ignored,
  every item's range is non-empty and within the text with \<open>original\<close> the substring of
  the text at that range, no two ranges overlap, the placeholders are pairwise different
  and have the bracketed shape that detection generates, no placeholder occurs in the text,
  and no original contains \<open>$\<close> (code unit 36). Then restoring the redacted text with the
  mapping of the items gives the text back.
\<close>

theorem round_trip:
  assumes act: "\<forall>it \<in> set its. \<not> ignored it"
    and rng: "\<forall>it \<in> set its. 0 \<le> startIndex it \<and> startIndex it < endIndex it
                \<and> endIndex it \<le> int (length text)
                \<and> original it = js_substring text (startIndex it) (endIndex it)"
    and dis: "\<forall>i < length its. \<forall>j < length its. i \<noteq> j \<longrightarrow>
                \<not> rangesOverlap (startIndex (its ! i), endIndex (its ! i))
                                 (startIndex (its ! j), endIndex (its ! j))"
    and dph: "distinct (map replacement its)"
    and ph: "\<forall>it \<in> set its. is_placeholder (replacement it) \<and> \<not> sublist (replacement it) text"
    and dollar: "\<forall>it \<in> set its. 36 \<notin> set (original it)"
  shows "restoreOriginals (applyReplacements text its) (buildReplacementMapping its) = text"
proof -
  let ?xs = "sort_key startIndex its"
  let ?kv = "\<lambda>it. (replacement it, original it)"
  have inj: "inj_on startIndex (set its)"
  proof (rule inj_onI)
    fix a b
    assume a: "a \<in> set its" and b: "b \<in> set its" and eq: "startIndex a = startIndex b"
    from a obtain i where i: "i < length its" "its ! i = a" by (auto simp: in_set_conv_nth)
    from b obtain j where j: "j < length its" "its ! j = b" by (auto simp: in_set_conv_nth)
    show "a = b"
    proof (rule ccontr)
      assume "a \<noteq> b"
      with i j have "i \<noteq> j" by auto
      with dis i j have "\<not> rangesOverlap (startIndex a, endIndex a) (startIndex b, endIndex b)"
        by auto
      moreover from rng a b have "startIndex a < endIndex a" "startIndex b < endIndex b" by auto
      ultimately show False using eq by (simp add: rangesOverlap_def)
    qed
  qed
  have "sorted_wrt disjoint_items its"
    using dis by (auto simp: sorted_wrt_iff_nth_less disjoint_items_def item_range_def)
  from sorted_wrt_sort_key [of disjoint_items, OF disjoint_items_sym this]
  have dj: "sorted_wrt disjoint_items ?xs" .
  have ch: "chain 0 (length text) ?xs"
    using rng dj by (intro chain_from_sorted) auto
  have "applyReplacements text its = applyReplacements text ?xs"
    by (rule applyReplacements_sorted [OF inj])
  also have "\<dots> = render ignored text 0 ?xs"
    by (rule applyReplacements_chain [OF ch])
  also have "\<dots> = render (\<lambda>it. False) text 0 ?xs"
    using act by (intro render_cong) simp
  finally have redacted: "applyReplacements text its = render (\<lambda>it. False) text 0 ?xs" .
  have "buildReplacementMapping its = map ?kv its"
    using act ph dph by (intro buildReplacementMapping_plain) auto
  moreover have "Object_entries (map ?kv its) = map ?kv its"
    using ph placeholder_not_index by (intro Object_entries_plain) auto
  ultimately have entries: "Object_entries (buildReplacementMapping its) = map ?kv its" by simp
  have ok: "\<forall>it \<in> set ?xs. is_placeholder (replacement it)
               \<and> original it = slice text (nat (startIndex it)) (nat (endIndex it))
               \<and> 36 \<notin> set (original it) \<and> \<not> sublist (replacement it) text"
  proof
    fix it assume "it \<in> set ?xs"
    then have it: "it \<in> set its" by simp
    with rng have r: "0 \<le> startIndex it" "startIndex it < endIndex it"
      "endIndex it \<le> int (length text)"
      "original it = js_substring text (startIndex it) (endIndex it)" by auto
    then have "original it = slice text (nat (startIndex it)) (nat (endIndex it))"
      using js_substring_slice [of "nat (startIndex it)" "nat (endIndex it)" "text"]
      by (simp add: slice_def)
    with it ph dollar show "is_placeholder (replacement it)
               \<and> original it = slice text (nat (startIndex it)) (nat (endIndex it))
               \<and> 36 \<notin> set (original it) \<and> \<not> sublist (replacement it) text" by blast
  qed
  have d: "distinct (map replacement ?xs)"
    using dph by (metis mset_eq_imp_distinct_iff mset_map mset_sort)
  have "restoreOriginals (applyReplacements text its) (buildReplacementMapping its)
          = foldl (\<lambda>result (placeholder, orig). js_replaceAll result placeholder orig)
              (render (\<lambda>it. False) text 0 ?xs) (map ?kv its)"
    by (simp add: restoreOriginals_def redacted entries)
  also have "\<dots> = render (\<lambda>it. False \<or> replacement it \<in> replacement ` set its) text 0 ?xs"
    by (rule restore_fold [OF ch ok d]) simp
  also have "\<dots> = drop 0 text"
    by (rule render_all_shown [OF ch]) simp
  finally show ?thesis by simp
qed

lemma disjoint_nth:
  assumes d: "sorted_wrt disjoint_items its"
  shows "\<forall>i < length its. \<forall>j < length its. i \<noteq> j \<longrightarrow>
           \<not> rangesOverlap (startIndex (its ! i), endIndex (its ! i))
                            (startIndex (its ! j), endIndex (its ! j))"
proof (intro allI impI)
  fix i j
  assume i: "i < length its" and j: "j < length its" and ne: "i \<noteq> j"
  from ne consider "i < j" | "j < i" by linarith
  then have "disjoint_items (its ! i) (its ! j)"
  proof cases
    case 1
    with d j show ?thesis by (simp add: sorted_wrt_iff_nth_less)
  next
    case 2
    with d i have "disjoint_items (its ! j) (its ! i)"
      by (simp add: sorted_wrt_iff_nth_less)
    then show ?thesis by (rule disjoint_items_sym)
  qed
  then show "\<not> rangesOverlap (startIndex (its ! i), endIndex (its ! i))
                            (startIndex (its ! j), endIndex (its ! j))"
    by (simp add: disjoint_items_def item_range_def)
qed

lemma example2_wellformed:
  "list_all (\<lambda>it. \<not> ignored it \<and> 0 \<le> startIndex it \<and> startIndex it < endIndex it
               \<and> endIndex it \<le> int (length example2_text)
               \<and> original it = js_substring example2_text (startIndex it) (endIndex it)
               \<and> is_placeholder (replacement it)
               \<and> \<not> js_includes example2_text (replacement it)
               \<and> 36 \<notin> set (original it)) example2_items
   \<and> distinct (map replacement example2_items)
   \<and> sorted_wrt disjoint_items example2_items"
  by code_simp

theorem round_trip_witness:
  "list_all (\<lambda>it. \<not> ignored it \<and> 0 \<le> startIndex it \<and> startIndex it < endIndex it
               \<and> endIndex it \<le> int (length example2_text)
               \<and> original it = js_substring example2_text (startIndex it) (endIndex it)
               \<and> is_placeholder (replacement it)
               \<and> \<not> sublist (replacement it) example2_text
               \<and> 36 \<notin> set (original it)) example2_items
   \<and> distinct (map replacement example2_items)
   \<and> sorted_wrt disjoint_items example2_items
   \<and> applyReplacements example2_text example2_items = js ''[EMAIL_1], [SSN_1], [EMAIL_2]''
   \<and> restoreOriginals (js ''[EMAIL_1], [SSN_1], [EMAIL_2]'') (buildReplacementMapping example2_items)
       = example2_text"
proof -
  note wf = example2_wellformed [unfolded js_includes_sublist]
  from wf have all: "\<forall>it \<in> set example2_items. \<not> ignored it \<and> 0 \<le> startIndex it \<and> startIndex it < endIndex it
               \<and> endIndex it \<le> int (length example2_text)
               \<and> original it = js_substring example2_text (startIndex it) (endIndex it)
               \<and> is_placeholder (replacement it)
               \<and> \<not> sublist (replacement it) example2_text
               \<and> 36 \<notin> set (original it)"
    unfolding list_all_iff by blast
  from wf have d: "distinct (map replacement example2_items)"
    and s: "sorted_wrt disjoint_items example2_items" by simp_all
  have r: "restoreOriginals (applyReplacements example2_text example2_items)
          (buildReplacementMapping example2_items) = example2_text"
    by (rule round_trip [OF _ _ disjoint_nth [OF s] d]) (use all in blast)+
  have a: "applyReplacements example2_text example2_items = js ''[EMAIL_1], [SSN_1], [EMAIL_2]''"
    by code_simp
  from r have "restoreOriginals (js ''[EMAIL_1], [SSN_1], [EMAIL_2]'')
                 (buildReplacementMapping example2_items) = example2_text"
    by (simp only: a)
  with wf a show ?thesis by blast
qed

definition cex_text :: jsstring where
  "cex_text = js ''[EMAIL_1] a@b.co''"

definition cex_item :: SensitiveItem where
  "cex_item = \<lparr>item_id = js ''email-10-16'', item_type = email,
        label = js ''Email Address'', original = js ''a@b.co'',
        replacement = js ''[EMAIL_1]'', startIndex = 10, endIndex = 16, ignored = False\<rparr>"

text \<open>
  The claim as stated asks only that no item is ignored and that no original equals
  another item's placeholder. It fails for the text \<open>[EMAIL_1] a@b.co\<close> with the one item
  that detection returns for it: the redacted text is \<open>[EMAIL_1] [EMAIL_1]\<close>, and restoring
  replaces both occurrences, giving \<open>a@b.co a@b.co\<close>.
\<close>

theorem round_trip_counterexample:
  "detectSensitiveInfo cex_text =
     Some \<lparr>hasSensitiveInfo = True, items = [cex_item], anonymizedText = js ''[EMAIL_1] [EMAIL_1]''\<rparr>
   \<and> \<not> ignored cex_item
   \<and> restoreOriginals (applyReplacements cex_text [cex_item]) (buildReplacementMapping [cex_item])
       = js ''a@b.co a@b.co''
   \<and> js ''a@b.co a@b.co'' \<noteq> cex_text"
  by code_simp

section \<open>Restoring an original that contains a dollar sign\<close>

definition dollar_item :: SensitiveItem where
  "dollar_item = \<lparr>item_id = js ''password-0-8'', item_type = password,
        label = js ''Password / Credential'', original = js ''pwd=a$$b'',
        replacement = js ''[PASSWORD_1]'', startIndex = 0, endIndex = 8, ignored = False\<rparr>"

text \<open>
  Claim C6 says that \<open>restoreOriginals\<close> replaces every occurrence of a key by its mapped
  value. The code passes the mapped value to \<open>replaceAll\<close> as a replacement template, in
  which \<open>$$\<close> stands for one \<open>$\<close>. For the text \<open>pwd=a$$b\<close> detection returns one item,
  with the whole text as its original; the mapping sends \<open>[PASSWORD_1]\<close> to \<open>pwd=a$$b\<close>, and
  restoring \<open>[PASSWORD_1]\<close> gives \<open>pwd=a$b\<close>, not the mapped value.
\<close>

theorem restore_dollar_pattern:
  "detectSensitiveInfo (js ''pwd=a$$b'') =
     Some \<lparr>hasSensitiveInfo = True, items = [dollar_item], anonymizedText = js ''[PASSWORD_1]''\<rparr>
   \<and> buildReplacementMapping [dollar_item] = [(js ''[PASSWORD_1]'', js ''pwd=a$$b'')]
   \<and> restoreOriginals (js ''[PASSWORD_1]'') [(js ''[PASSWORD_1]'', js ''pwd=a$$b'')] = js ''pwd=a$b''
   \<and> js ''pwd=a$b'' \<noteq> js ''pwd=a$$b''"
  by code_simp

end
